theory Spec2Isabelle
  imports Complex_Main "HOL-Library.Word" "HOL-Library.List_Lexorder"
begin

unbundle bit_operations_syntax

section \<open>Machine integers and byte strings\<close>

text \<open>
  Go's \<^verbatim>\<open>byte\<close>, \<^verbatim>\<open>uint32\<close> and \<^verbatim>\<open>uint64\<close> are words of the
  corresponding width: addition and multiplication wrap, comparison is unsigned. A Go
  \<^verbatim>\<open>string\<close> and a \<^verbatim>\<open>[]byte\<close> are both byte sequences, so the conversions
  \<^verbatim>\<open>[]byte(key)\<close> and \<^verbatim>\<open>string(e.Key)\<close> are the identity on \<open>byte list\<close>;
  Go compares strings bytewise, which is the lexicographic order on \<open>byte list\<close>.
\<close>

type_synonym byte = "8 word"
type_synonym u32 = "32 word"
type_synonym u64 = "64 word"

text \<open>\<^verbatim>\<open>binary.LittleEndian.PutUint32\<close> and \<^verbatim>\<open>Uint32\<close> (the latter reads the first four
  bytes of the slice it is given).\<close>

definition le32 :: "u32 \<Rightarrow> byte list" where
  "le32 w = [ucast w, ucast (drop_bit 8 w), ucast (drop_bit 16 w), ucast (drop_bit 24 w)]"

definition rd32 :: "byte list \<Rightarrow> u32" where
  "rd32 b = ucast (b ! 0) OR push_bit 8 (ucast (b ! 1)) OR push_bit 16 (ucast (b ! 2))
              OR push_bit 24 (ucast (b ! 3))"

text \<open>A slice expression \<^verbatim>\<open>xs[lo:hi]\<close>; \<open>None\<close> is the run-time panic
  "slice bounds out of range".\<close>

definition slice :: "'a list \<Rightarrow> nat \<Rightarrow> nat \<Rightarrow> 'a list option" where
  "slice xs lo hi =
     (if lo \<le> hi \<and> hi \<le> length xs then Some (take (hi - lo) (drop lo xs)) else None)"

section \<open>Bloom filter (bloom.go)\<close>

text \<open>\<^verbatim>\<open>hash/fnv\<close>'s 64-bit FNV-1a: offset basis and prime of the standard.\<close>

definition fnv64a :: "byte list \<Rightarrow> u64" where
  "fnv64a key = foldl (\<lambda>h b. (h XOR ucast b) * 0x100000001b3) 0xcbf29ce484222325 key"

record BloomFilter =
  bits :: "byte list"
  numBits :: u32
  numHash :: u32

text \<open>
  \<^verbatim>\<open>NewBloomFilter\<close> computes \<^verbatim>\<open>m\<close> and \<^verbatim>\<open>k\<close> in float64 and converts
  \<^verbatim>\<open>math.Ceil(m)\<close> and \<^verbatim>\<open>math.Ceil(k)\<close> to \<^verbatim>\<open>uint32\<close>. That floating-point step is
  the parameter \<open>fsize\<close>: \<open>fsize n p\<close> is the pair
  \<^verbatim>\<open>(uint32(math.Ceil(m)), uint32(math.Ceil(k)))\<close> for the clamped arguments. Everything
  after it (the lower bounds 8 and 1, the size of the byte array in uint32 arithmetic) is
  the code's.
\<close>

type_synonym sizing = "int \<Rightarrow> real \<Rightarrow> u32 \<times> u32"

definition NewBloomFilter :: "sizing \<Rightarrow> int \<Rightarrow> real \<Rightarrow> BloomFilter" where
  "NewBloomFilter fsize expectedItems fpRate =
     (let expectedItems = (if expectedItems < 1 then 1 else expectedItems);
          fpRate = (if fpRate \<le> 0 \<or> fpRate \<ge> 1 then 1 / 100 else fpRate);
          (mc, kc) = fsize expectedItems fpRate;
          nb = (if mc < 8 then 8 else mc);
          nh = (if kc < 1 then 1 else kc)
      in \<lparr>bits = replicate (unat ((nb + 7) div 8)) 0, numBits = nb, numHash = nh\<rparr>)"

text \<open>
  An instance of the sizing for running examples, for the rate 0.01 that the engine
  always passes: \<open>m / n = -ln 0.01 / (ln 2)\<^sup>2 = 9.5850583...\<close> and
  \<open>k = \<lceil>6.64...\<rceil> = 7\<close>. For one item it gives 10 bits and 7 hashes, as float64 does.
\<close>

definition sizing_p01 :: sizing where
  "sizing_p01 n p = (word_of_int ((n * 95850584 + 9999999) div 10000000), 7)"

definition hash :: "byte list \<Rightarrow> u32 \<times> u32" where
  "hash key =
     (let sum = fnv64a key;
          h1 = (ucast sum :: u32);
          h2 = (ucast (drop_bit 32 sum) :: u32)
      in (h1, if h2 = 0 then 1 else h2))"

definition bit_pos :: "BloomFilter \<Rightarrow> u32 \<Rightarrow> u32 \<Rightarrow> nat \<Rightarrow> u32" where
  "bit_pos bf h1 h2 i = (h1 + of_nat i * h2) mod numBits bf"

text \<open>\<^verbatim>\<open>bf.bits[pos/8] |= 1 << (pos % 8)\<close> and the test of the same bit; \<open>None\<close> is the
  panic "index out of range".\<close>

definition set_bit :: "BloomFilter \<Rightarrow> u32 \<Rightarrow> BloomFilter option" where
  "set_bit bf pos =
     (let idx = unat (pos div 8) in
      if idx < length (bits bf)
      then Some (bf\<lparr>bits := (bits bf)[idx := (bits bf ! idx) OR push_bit (unat (pos mod 8)) 1]\<rparr>)
      else None)"

definition test_bit :: "BloomFilter \<Rightarrow> u32 \<Rightarrow> bool option" where
  "test_bit bf pos =
     (let idx = unat (pos div 8) in
      if idx < length (bits bf)
      then Some ((bits bf ! idx) AND push_bit (unat (pos mod 8)) 1 \<noteq> 0)
      else None)"

text \<open>The loops \<^verbatim>\<open>for i := uint32(0); i < bf.numHash; i++\<close>: \<open>i\<close> is the counter, the
  second number the iterations left. A zero \<open>numBits\<close> is the panic "integer divide by
  zero" of \<^verbatim>\<open>%\<close>.\<close>

fun Add_loop :: "u32 \<Rightarrow> u32 \<Rightarrow> nat \<Rightarrow> nat \<Rightarrow> BloomFilter \<Rightarrow> BloomFilter option" where
  "Add_loop h1 h2 i 0 bf = Some bf"
| "Add_loop h1 h2 i (Suc n) bf =
     (if numBits bf = 0 then None
      else case set_bit bf (bit_pos bf h1 h2 i) of
             None \<Rightarrow> None
           | Some bf' \<Rightarrow> Add_loop h1 h2 (Suc i) n bf')"

definition Add :: "BloomFilter \<Rightarrow> byte list \<Rightarrow> BloomFilter option" where
  "Add bf key = (case hash key of (h1, h2) \<Rightarrow> Add_loop h1 h2 0 (unat (numHash bf)) bf)"

fun MayContain_loop :: "u32 \<Rightarrow> u32 \<Rightarrow> nat \<Rightarrow> nat \<Rightarrow> BloomFilter \<Rightarrow> bool option" where
  "MayContain_loop h1 h2 i 0 bf = Some True"
| "MayContain_loop h1 h2 i (Suc n) bf =
     (if numBits bf = 0 then None
      else case test_bit bf (bit_pos bf h1 h2 i) of
             None \<Rightarrow> None
           | Some False \<Rightarrow> Some False
           | Some True \<Rightarrow> MayContain_loop h1 h2 (Suc i) n bf)"

definition MayContain :: "BloomFilter \<Rightarrow> byte list \<Rightarrow> bool option" where
  "MayContain bf key =
     (case hash key of (h1, h2) \<Rightarrow> MayContain_loop h1 h2 0 (unat (numHash bf)) bf)"

text \<open>Inserting a batch of keys, one \<^verbatim>\<open>Add\<close> after the other, in the order given.\<close>

fun Add_all :: "BloomFilter \<Rightarrow> byte list list \<Rightarrow> BloomFilter option" where
  "Add_all bf [] = Some bf"
| "Add_all bf (k # ks) = (case Add bf k of None \<Rightarrow> None | Some bf' \<Rightarrow> Add_all bf' ks)"

definition Serialize :: "BloomFilter \<Rightarrow> byte list" where
  "Serialize bf = le32 (numBits bf) @ le32 (numHash bf) @ bits bf"

definition DeserializeBloom :: "sizing \<Rightarrow> byte list \<Rightarrow> BloomFilter" where
  "DeserializeBloom fsize data =
     (if length data < 8 then NewBloomFilter fsize 1 (1 / 100)
      else \<lparr>bits = drop 8 data,
            numBits = rd32 (take 4 data),
            numHash = rd32 (take 4 (drop 4 data))\<rparr>)"

text \<open>The bit array covers every position below \<open>numBits\<close>.\<close>

definition bloom_wf :: "BloomFilter \<Rightarrow> bool" where
  "bloom_wf bf \<longleftrightarrow> numBits bf \<noteq> 0 \<and> unat (numBits bf) \<le> 8 * length (bits bf)"

subsection \<open>Bits are only ever set\<close>

lemma and_or_mono: "(b::byte) AND m \<noteq> 0 \<Longrightarrow> (b OR x) AND m \<noteq> 0"
  by (metis and.assoc and_zero_eq word_ao_absorbs(3))

lemma u32_mod8_less: "unat ((pos::u32) mod 8) < 8"
  by (simp add: unat_mod_distrib) 

lemma set_bit_fields:
  "set_bit bf pos = Some bf' \<Longrightarrow>
     numBits bf' = numBits bf \<and> numHash bf' = numHash bf \<and> length (bits bf') = length (bits bf)"
  by (auto simp: set_bit_def Let_def split: if_splits)

lemma set_bit_sets: "set_bit bf pos = Some bf' \<Longrightarrow> test_bit bf' pos = Some True"
  using u32_mod8_less [of pos]
  by (auto simp: set_bit_def test_bit_def Let_def split: if_splits)

lemma set_bit_keeps:
  "set_bit bf pos = Some bf' \<Longrightarrow> test_bit bf q = Some True \<Longrightarrow> test_bit bf' q = Some True"
  by (auto simp: set_bit_def test_bit_def Let_def nth_list_update and_or_mono split: if_splits)

lemma set_bit_total:
  assumes "bloom_wf bf" "pos < numBits bf"
  shows "\<exists>bf'. set_bit bf pos = Some bf'"
proof -
  have "unat pos < unat (numBits bf)" using assms(2) by (simp add: word_less_nat_alt)
  then have "unat pos div 8 < length (bits bf)" using assms(1) by (auto simp: bloom_wf_def)
  then show ?thesis by (simp add: set_bit_def Let_def unat_div)
qed

lemma bit_pos_less: "numBits bf \<noteq> 0 \<Longrightarrow> bit_pos bf h1 h2 i < numBits bf"
  by (simp add: bit_pos_def word_mod_less_divisor word_neq_0_conv [symmetric])

lemma set_bit_wf: "set_bit bf pos = Some bf' \<Longrightarrow> bloom_wf bf \<Longrightarrow> bloom_wf bf'"
  using set_bit_fields [of bf pos bf'] by (simp add: bloom_wf_def)

lemma bit_pos_cong: "numBits bf' = numBits bf \<Longrightarrow> bit_pos bf' h1 h2 i = bit_pos bf h1 h2 i"
  by (simp add: bit_pos_def)

lemma Add_loop_fields:
  "Add_loop h1 h2 i n bf = Some bf' \<Longrightarrow>
     numBits bf' = numBits bf \<and> numHash bf' = numHash bf \<and> length (bits bf') = length (bits bf)"
proof (induction n arbitrary: i bf)
  case 0
  then show ?case by simp
next
  case (Suc n)
  then show ?case
    by (auto split: if_splits option.splits dest!: set_bit_fields)
qed

lemma Add_loop_keeps:
  "Add_loop h1 h2 i n bf = Some bf' \<Longrightarrow> test_bit bf q = Some True \<Longrightarrow> test_bit bf' q = Some True"
proof (induction n arbitrary: i bf)
  case 0
  then show ?case by simp
next
  case (Suc n)
  then show ?case
    by (auto split: if_splits option.splits dest: set_bit_keeps)
qed

lemma Add_loop_sets:
  "Add_loop h1 h2 i n bf = Some bf' \<Longrightarrow> i \<le> j \<Longrightarrow> j < i + n \<Longrightarrow>
     test_bit bf' (bit_pos bf h1 h2 j) = Some True"
proof (induction n arbitrary: i bf)
  case 0
  then show ?case by simp
next
  case (Suc n)
  from Suc.prems(1) obtain bf1 where nz: "numBits bf \<noteq> 0"
    and s: "set_bit bf (bit_pos bf h1 h2 i) = Some bf1"
    and r: "Add_loop h1 h2 (Suc i) n bf1 = Some bf'"
    by (auto split: if_splits option.splits)
  have nb: "numBits bf1 = numBits bf" using set_bit_fields [OF s] by simp
  show ?case
  proof (cases "j = i")
    case True
    have "test_bit bf1 (bit_pos bf h1 h2 i) = Some True" using s by (rule set_bit_sets)
    then show ?thesis using Add_loop_keeps [OF r] True by simp
  next
    case False
    then have "Suc i \<le> j" "j < Suc i + n" using Suc.prems by auto
    then have "test_bit bf' (bit_pos bf1 h1 h2 j) = Some True" using Suc.IH [OF r] by simp
    then show ?thesis by (simp add: bit_pos_cong [OF nb])
  qed
qed

lemma Add_loop_total:
  "bloom_wf bf \<Longrightarrow> \<exists>bf'. Add_loop h1 h2 i n bf = Some bf'"
proof (induction n arbitrary: i bf)
  case 0
  then show ?case by simp
next
  case (Suc n)
  have nz: "numBits bf \<noteq> 0" using Suc.prems by (simp add: bloom_wf_def)
  obtain bf1 where s: "set_bit bf (bit_pos bf h1 h2 i) = Some bf1"
    using set_bit_total [OF Suc.prems bit_pos_less [OF nz]] by blast
  have "bloom_wf bf1" using set_bit_wf [OF s Suc.prems] .
  then show ?case using Suc.IH [of bf1 "Suc i"] s nz by simp
qed

lemma MayContain_loop_True:
  "(n \<noteq> 0 \<Longrightarrow> numBits bf \<noteq> 0) \<Longrightarrow>
   (\<And>j. i \<le> j \<Longrightarrow> j < i + n \<Longrightarrow> test_bit bf (bit_pos bf h1 h2 j) = Some True) \<Longrightarrow>
   MayContain_loop h1 h2 i n bf = Some True"
proof (induction n arbitrary: i)
  case 0
  then show ?case by simp
next
  case (Suc n)
  have "test_bit bf (bit_pos bf h1 h2 i) = Some True" using Suc.prems(2) [of i] by simp
  moreover have "MayContain_loop h1 h2 (Suc i) n bf = Some True"
    using Suc.prems by (intro Suc.IH) auto
  ultimately show ?case using Suc.prems(1) by simp
qed

lemma Add_loop_nz: "Add_loop h1 h2 i n bf = Some bf' \<Longrightarrow> n \<noteq> 0 \<Longrightarrow> numBits bf \<noteq> 0"
  by (cases n) (auto split: if_splits)

lemma Add_MayContain: 
  assumes "Add bf key = Some bf'"
  shows "MayContain bf' key = Some True"
proof -
  obtain h1 h2 where h: "hash key = (h1, h2)" by (cases "hash key")
  have a: "Add_loop h1 h2 0 (unat (numHash bf)) bf = Some bf'"
    using assms h by (simp add: Add_def)
  note f = Add_loop_fields [OF a]
  have nz: "unat (numHash bf) \<noteq> 0 \<Longrightarrow> numBits bf' \<noteq> 0"
    using Add_loop_nz [OF a] f by simp
  have "MayContain_loop h1 h2 0 (unat (numHash bf)) bf' = Some True"
  proof (rule MayContain_loop_True)
    show "unat (numHash bf) \<noteq> 0 \<Longrightarrow> numBits bf' \<noteq> 0" by (rule nz)
  next
    fix j assume "0 \<le> j" "j < 0 + unat (numHash bf)"
    then have "test_bit bf' (bit_pos bf h1 h2 j) = Some True"
      using Add_loop_sets [OF a, of j] by simp
    then show "test_bit bf' (bit_pos bf' h1 h2 j) = Some True"
      using f bit_pos_cong [of bf' bf h1 h2 j] by simp
  qed
  moreover have "numHash bf' = numHash bf" using f by simp
  ultimately show ?thesis unfolding MayContain_def h by simp
qed

lemma MayContain_loop_only_if:
  "MayContain_loop h1 h2 i n bf = Some True \<Longrightarrow> i \<le> j \<Longrightarrow> j < i + n \<Longrightarrow>
     numBits bf \<noteq> 0 \<and> test_bit bf (bit_pos bf h1 h2 j) = Some True"
proof (induction n arbitrary: i)
  case 0
  then show ?case by simp
next
  case (Suc n)
  from Suc.prems(1) have nz: "numBits bf \<noteq> 0"
    and t: "test_bit bf (bit_pos bf h1 h2 i) = Some True"
    and r: "MayContain_loop h1 h2 (Suc i) n bf = Some True"
    by (auto split: if_splits option.splits bool.splits)
  show ?case
  proof (cases "j = i")
    case True
    then show ?thesis using nz t by simp
  next
    case False
    then show ?thesis using Suc.IH [OF r] Suc.prems by simp
  qed
qed

lemma Add_keeps_MayContain:
  assumes "Add bf k2 = Some bf'" "MayContain bf key = Some True"
  shows "MayContain bf' key = Some True"
proof -
  obtain h1 h2 where h: "hash key = (h1, h2)" by (cases "hash key")
  obtain g1 g2 where g: "hash k2 = (g1, g2)" by (cases "hash k2")
  have a: "Add_loop g1 g2 0 (unat (numHash bf)) bf = Some bf'"
    using assms(1) g by (simp add: Add_def)
  note f = Add_loop_fields [OF a]
  have m: "MayContain_loop h1 h2 0 (unat (numHash bf)) bf = Some True"
    using assms(2) h by (simp add: MayContain_def)
  have "MayContain_loop h1 h2 0 (unat (numHash bf)) bf' = Some True"
  proof (rule MayContain_loop_True)
    assume "unat (numHash bf) \<noteq> 0"
    then show "numBits bf' \<noteq> 0" using MayContain_loop_only_if [OF m, of 0] f by simp
  next
    fix j assume "0 \<le> j" "j < 0 + unat (numHash bf)"
    then have "test_bit bf (bit_pos bf h1 h2 j) = Some True"
      using MayContain_loop_only_if [OF m, of j] by simp
    then have "test_bit bf' (bit_pos bf h1 h2 j) = Some True"
      by (rule Add_loop_keeps [OF a])
    then show "test_bit bf' (bit_pos bf' h1 h2 j) = Some True"
      using f bit_pos_cong [of bf' bf h1 h2 j] by simp
  qed
  moreover have "numHash bf' = numHash bf" using f by simp
  ultimately show ?thesis unfolding MayContain_def h by simp
qed

lemma Add_all_MayContain:
  "Add_all bf keys = Some bf' \<Longrightarrow> key \<in> set keys \<Longrightarrow> MayContain bf' key = Some True"
  and Add_all_keeps:
  "Add_all bf keys = Some bf' \<Longrightarrow> MayContain bf key = Some True \<Longrightarrow> MayContain bf' key = Some True"
proof (induction keys arbitrary: bf)
  case Nil
  { case 1 then show ?case by simp }
  { case 2 then show ?case by simp }
next
  case (Cons k ks)
  { case 1
    from 1(1) obtain bf1 where a: "Add bf k = Some bf1" and r: "Add_all bf1 ks = Some bf'"
      by (auto split: option.splits)
    show ?case
    proof (cases "key = k")
      case True
      then show ?thesis using Add_MayContain [OF a] Cons.IH(2) [OF r] by simp
    next
      case False
      then show ?thesis using 1(2) Cons.IH(1) [OF r] by simp
    qed }
  { case 2
    from 2(1) obtain bf1 where a: "Add bf k = Some bf1" and r: "Add_all bf1 ks = Some bf'"
      by (auto split: option.splits)
    show ?case using Cons.IH(2) [OF r Add_keeps_MayContain [OF a 2(2)]] . }
qed

lemma Add_total: "bloom_wf bf \<Longrightarrow> \<exists>bf'. Add bf key = Some bf' \<and> bloom_wf bf'"
proof -
  assume w: "bloom_wf bf"
  obtain h1 h2 where h: "hash key = (h1, h2)" by (cases "hash key")
  obtain bf' where a: "Add_loop h1 h2 0 (unat (numHash bf)) bf = Some bf'"
    using Add_loop_total [OF w] by blast
  have "bloom_wf bf'" using Add_loop_fields [OF a] w by (simp add: bloom_wf_def)
  then show ?thesis using a h by (simp add: Add_def)
qed

lemma Add_all_total: "bloom_wf bf \<Longrightarrow> \<exists>bf'. Add_all bf keys = Some bf' \<and> bloom_wf bf'"
proof (induction keys arbitrary: bf)
  case Nil
  then show ?case by simp
next
  case (Cons k ks)
  obtain bf1 where "Add bf k = Some bf1" "bloom_wf bf1" using Add_total [OF Cons.prems] by blast
  then show ?case using Cons.IH [of bf1] by simp
qed

lemma NewBloomFilter_numBits_ge: "8 \<le> numBits (NewBloomFilter fsize n p)"
  by (auto simp: NewBloomFilter_def Let_def split: prod.splits)

lemma NewBloomFilter_wf:
  assumes "unat (numBits (NewBloomFilter fsize n p)) + 7 < 2 ^ 32"
  shows "bloom_wf (NewBloomFilter fsize n p)"
proof -
  let ?bf = "NewBloomFilter fsize n p"
  have len: "length (bits ?bf) = unat ((numBits ?bf + 7) div 8)"
    by (auto simp: NewBloomFilter_def Let_def split: prod.splits)
  have "unat (numBits ?bf + 7) = unat (numBits ?bf) + 7"
    using assms by (simp add: unat_word_ariths)
  then have "length (bits ?bf) = (unat (numBits ?bf) + 7) div 8"
    using len by (simp add: unat_div)
  moreover have "numBits ?bf \<noteq> 0" using NewBloomFilter_numBits_ge [of fsize n p] by auto
  ultimately show ?thesis by (simp add: bloom_wf_def)
qed

subsection \<open>A filter fresh from \<^verbatim>\<open>NewBloomFilter\<close>\<close>

lemma NewBloomFilter_fresh:
  "\<exists>n. bits (NewBloomFilter fsize n0 p) = replicate n 0"
  by (auto simp: NewBloomFilter_def Let_def split: prod.splits)

lemma NewBloomFilter_numHash: "numHash (NewBloomFilter fsize n0 p) \<noteq> 0"
  by (auto simp: NewBloomFilter_def Let_def word_less_1 split: prod.splits)

lemma test_bit_fresh: "bits bf = replicate n 0 \<Longrightarrow> test_bit bf pos \<noteq> Some True"
  by (auto simp: test_bit_def Let_def)

lemma MayContain_fresh:
  assumes "bits bf = replicate n 0" "numHash bf \<noteq> 0"
  shows "MayContain bf key \<noteq> Some True"
proof -
  obtain h1 h2 where h: "hash key = (h1, h2)" by (cases "hash key")
  obtain m where m: "unat (numHash bf) = Suc m"
    using assms(2) by (cases "unat (numHash bf)") (auto simp: unat_eq_0)
  have "MayContain_loop h1 h2 0 (Suc m) bf \<noteq> Some True"
    using test_bit_fresh [OF assms(1), of "bit_pos bf h1 h2 0"]
    by (auto split: option.splits bool.splits)
  then show ?thesis unfolding MayContain_def h m by simp
qed

lemma test_bit_total:
  assumes "bloom_wf bf" "pos < numBits bf"
  shows "\<exists>b. test_bit bf pos = Some b"
proof -
  have "unat pos < unat (numBits bf)" using assms(2) by (simp add: word_less_nat_alt)
  then have "unat pos div 8 < length (bits bf)" using assms(1) by (auto simp: bloom_wf_def)
  then show ?thesis by (simp add: test_bit_def Let_def unat_div)
qed

lemma MayContain_fresh_wf:
  assumes "bits bf = replicate n 0" "numHash bf \<noteq> 0" "bloom_wf bf"
  shows "MayContain bf key = Some False"
proof -
  obtain h1 h2 where h: "hash key = (h1, h2)" by (cases "hash key")
  obtain m where m: "unat (numHash bf) = Suc m"
    using assms(2) by (cases "unat (numHash bf)") (auto simp: unat_eq_0)
  have nz: "numBits bf \<noteq> 0" using assms(3) by (simp add: bloom_wf_def)
  obtain b where b: "test_bit bf (bit_pos bf h1 h2 0) = Some b"
    using test_bit_total [OF assms(3) bit_pos_less [OF nz]] by blast
  then have "b = False" using test_bit_fresh [OF assms(1), of "bit_pos bf h1 h2 0"] by auto
  then have "MayContain_loop h1 h2 0 (Suc m) bf = Some False" using b nz by simp
  then show ?thesis unfolding MayContain_def h m by simp
qed

subsection \<open>No false negatives\<close>

text \<open>
  Claim C7. A key that was inserted is reported as possibly present: if the insertions
  \<^verbatim>\<open>Add\<close> of a list of keys into a filter built by \<^verbatim>\<open>NewBloomFilter\<close> return, in
  whatever order and for whatever sizing the float computation produced, then
  \<^verbatim>\<open>MayContain\<close> returns true for each of the keys. The insertions do return whenever
  \<^verbatim>\<open>numBits + 7\<close> does not wrap in uint32, that is whenever the byte array
  \<^verbatim>\<open>make([]byte, (numBits+7)/8)\<close> covers \<open>numBits\<close> bits.
\<close>

theorem bloom_no_false_negatives:
  "key \<in> set keys \<Longrightarrow>
     (\<forall>bf'. Add_all (NewBloomFilter fsize n p) keys = Some bf' \<longrightarrow> MayContain bf' key = Some True) \<and>
     (unat (numBits (NewBloomFilter fsize n p)) + 7 < 2 ^ 32 \<longrightarrow>
        (\<exists>bf'. Add_all (NewBloomFilter fsize n p) keys = Some bf'))"
  using Add_all_MayContain [of "NewBloomFilter fsize n p" keys _ key]
        Add_all_total [OF NewBloomFilter_wf, of fsize n p keys]
  by blast

lemma numBits_sizing_p01_2: "numBits (NewBloomFilter sizing_p01 2 (1 / 100)) = 20"
  by (simp add: NewBloomFilter_def sizing_p01_def)

theorem bloom_no_false_negatives_witness:
  "[0x62] \<in> set [[0x61], [0x62 :: byte]] \<and>
   (\<exists>bf'. Add_all (NewBloomFilter sizing_p01 2 (1 / 100)) [[0x61], [0x62]] = Some bf' \<and>
      MayContain bf' [0x62] = Some True)"
proof -
  have k: "[0x62] \<in> set [[0x61], [0x62 :: byte]]" by simp
  have "unat (numBits (NewBloomFilter sizing_p01 2 (1 / 100))) + 7 < 2 ^ 32"
    by (simp add: numBits_sizing_p01_2)
  then show ?thesis
    using bloom_no_false_negatives [OF k, of sizing_p01 2 "1 / 100"] k by blast
qed

subsection \<open>Deserializing a short or malformed input\<close>

text \<open>
  On an input shorter than 8 bytes \<^verbatim>\<open>DeserializeBloom\<close> falls back to
  \<^verbatim>\<open>NewBloomFilter(1, 0.01)\<close>, a filter in which no bit is set, and \<^verbatim>\<open>MayContain\<close> of
  that filter never answers true, whatever the key and whatever the sizing: it answers
  false whenever the byte array covers \<open>numBits\<close> bits.
\<close>

lemma deserialize_short_rejects:
  "length data < 8 \<Longrightarrow>
     DeserializeBloom fsize data = NewBloomFilter fsize 1 (1 / 100) \<and>
     MayContain (DeserializeBloom fsize data) key \<noteq> Some True \<and>
     (unat (numBits (NewBloomFilter fsize 1 (1 / 100))) + 7 < 2 ^ 32 \<longrightarrow>
        MayContain (DeserializeBloom fsize data) key = Some False)"
proof -
  assume short: "length data < 8"
  let ?bf = "NewBloomFilter fsize 1 (1 / 100)"
  have d: "DeserializeBloom fsize data = ?bf" using short by (simp add: DeserializeBloom_def)
  obtain n where fresh: "bits ?bf = replicate n 0" using NewBloomFilter_fresh by blast
  have nh: "numHash ?bf \<noteq> 0" by (rule NewBloomFilter_numHash)
  have "MayContain ?bf key \<noteq> Some True" using fresh nh by (rule MayContain_fresh)
  moreover have "unat (numBits ?bf) + 7 < 2 ^ 32 \<Longrightarrow> MayContain ?bf key = Some False"
    using MayContain_fresh_wf [OF fresh nh NewBloomFilter_wf] .
  ultimately show ?thesis using d by simp
qed

text \<open>
  Claim C8 is what the code should do and does not. A filter that cannot be read back
  must answer "maybe" for every key, since the table it guards may hold the key; that is
  what the comments of bloom.go promise (false negatives are not possible, a false result
  guarantees that the key is not in the set). The code instead
  \<^item> answers false for every key on an input shorter than 8 bytes: for the empty input
    the fallback filter has 10 bits and 7 hashes, and the first bit probed for the key
    "k" is clear;
  \<^item> panics on a malformed input of 8 bytes that declares \<open>numBits = 0\<close> and
    \<open>numHash = 1\<close> (integer divide by zero in \<^verbatim>\<open>% bf.numBits\<close>).
\<close>

theorem deserialize_malformed_false_negative:
  "MayContain (DeserializeBloom sizing_p01 []) [0x6b] = Some False \<and>
   MayContain (DeserializeBloom sizing_p01 [0, 0, 0, 0, 1, 0, 0, 0]) [0x6b] = None"
proof -
  let ?bf = "\<lparr>bits = [0, 0], numBits = 10, numHash = 7\<rparr>"
  have r: "replicate 2 (0 :: byte) = [0, 0]" by (simp add: numeral_2_eq_2)
  have d: "DeserializeBloom sizing_p01 [] = ?bf"
    by (simp add: DeserializeBloom_def NewBloomFilter_def sizing_p01_def r)
  have fresh: "bits ?bf = replicate (Suc (Suc 0)) 0" by simp
  have nh: "numHash ?bf \<noteq> 0" by simp
  have wf: "bloom_wf ?bf" by (simp add: bloom_wf_def)
  have a: "MayContain (DeserializeBloom sizing_p01 []) [0x6b] = Some False"
    unfolding d by (rule MayContain_fresh_wf [OF fresh nh wf])
  let ?z = "\<lparr>bits = [], numBits = 0, numHash = 1\<rparr>"
  have dz: "DeserializeBloom sizing_p01 [0, 0, 0, 0, 1, 0, 0, 0] = ?z"
    by (simp add: DeserializeBloom_def rd32_def)
  obtain h1 h2 where h: "hash [0x6b] = (h1, h2)" by (cases "hash [0x6b]")
  have "MayContain_loop h1 h2 0 (Suc 0) ?z = None" by simp
  then have b: "MayContain ?z [0x6b] = None" unfolding MayContain_def h by simp
  show ?thesis using a b dz by simp
qed

section \<open>Errors\<close>

text \<open>The errors the engine returns, as values. \<open>Panic\<close> is a Go run-time panic (index or
  slice bounds out of range, division by zero), which ends the process.\<close>

datatype error =
    ErrKeyNotFound
  | ErrPayloadTooShort
  | ErrPayloadTruncatedKey
  | ErrPayloadTruncatedValue
  | ErrSSTableTooSmall
  | ErrSSTableBadMagic
  | ErrSSTableRead
  | Panic

section \<open>Write-ahead log (wal.go)\<close>

text \<open>\<^verbatim>\<open>crc32.ChecksumIEEE\<close>: the reflected CRC-32 of IEEE 802.3, bit by bit.\<close>

definition crc32_shift :: "u32 \<Rightarrow> u32" where
  "crc32_shift c = (if bit c 0 then drop_bit 1 c XOR 0xEDB88320 else drop_bit 1 c)"

definition crc32_update :: "u32 \<Rightarrow> byte \<Rightarrow> u32" where
  "crc32_update c b = (crc32_shift ^^ 8) (c XOR ucast b)"

definition ChecksumIEEE :: "byte list \<Rightarrow> u32" where
  "ChecksumIEEE p = foldl crc32_update 0xFFFFFFFF p XOR 0xFFFFFFFF"

text \<open>\<^verbatim>\<open>type OpType byte\<close> with the two constants of the source.\<close>

definition OpPut :: byte where "OpPut = 1"
definition OpDelete :: byte where "OpDelete = 2"

record WALEntry =
  Op :: byte
  Key :: "byte list"
  Value :: "byte list"

text \<open>The payload and the record that \<^verbatim>\<open>Append\<close> builds; the file is the bytes written
  so far, and \<^verbatim>\<open>Append\<close> (opened with \<^verbatim>\<open>O_APPEND\<close>, write and sync succeeding) adds
  the record at its end.\<close>

definition wal_payload :: "WALEntry \<Rightarrow> byte list" where
  "wal_payload entry =
     [Op entry] @ le32 (of_nat (length (Key entry))) @ Key entry
       @ le32 (of_nat (length (Value entry))) @ Value entry"

definition wal_record :: "WALEntry \<Rightarrow> byte list" where
  "wal_record entry =
     (let payload = wal_payload entry
      in le32 (of_nat (length payload)) @ le32 (ChecksumIEEE payload) @ payload)"

definition Append :: "byte list \<Rightarrow> WALEntry \<Rightarrow> byte list" where
  "Append file entry = file @ wal_record entry"

definition decodePayload :: "byte list \<Rightarrow> error + WALEntry" where
  "decodePayload payload =
     (if length payload < 9 then Inl ErrPayloadTooShort
      else
        let op = payload ! 0;
            keyLen = rd32 (take 4 (drop 1 payload))
        in if (of_nat (length payload) :: u32) < 5 + keyLen + 4 then Inl ErrPayloadTruncatedKey
           else case slice payload 5 (unat (5 + keyLen)) of
                  None \<Rightarrow> Inl Panic
                | Some key \<Rightarrow>
                    let valOff = 5 + keyLen in
                    (case slice payload (unat valOff) (unat (valOff + 4)) of
                       None \<Rightarrow> Inl Panic
                     | Some lenBytes \<Rightarrow>
                         let valLen = rd32 lenBytes
                         in if (of_nat (length payload) :: u32) < valOff + 4 + valLen
                            then Inl ErrPayloadTruncatedValue
                            else (case slice payload (unat (valOff + 4))
                                         (unat (valOff + 4 + valLen)) of
                                    None \<Rightarrow> Inl Panic
                                  | Some val \<Rightarrow> Inr \<lparr>Op = op, Key = key, Value = val\<rparr>)))"

text \<open>
  The loop of \<^verbatim>\<open>Replay\<close> over the bytes of the file that are still unread. Each
  \<^verbatim>\<open>break\<close> returns the entries collected so far; a panic in \<^verbatim>\<open>decodePayload\<close> ends
  the process.
\<close>

function Replay_loop :: "byte list \<Rightarrow> WALEntry list \<Rightarrow> error + WALEntry list" where
  "Replay_loop f entries =
     (if length f < 8 then Inr entries
      else
        let len = rd32 (take 4 f);
            storedCRC = rd32 (take 4 (drop 4 f));
            rest = drop 8 f
        in if len > 64 * 1024 * 1024 then Inr entries
           else if length rest < unat len then Inr entries
           else
             let payload = take (unat len) rest
             in if ChecksumIEEE payload \<noteq> storedCRC then Inr entries
                else (case decodePayload payload of
                        Inl Panic \<Rightarrow> Inl Panic
                      | Inl _ \<Rightarrow> Inr entries
                      | Inr entry \<Rightarrow> Replay_loop (drop (unat len) rest) (entries @ [entry])))"
  by pat_completeness auto
termination
  by (relation "measure (\<lambda>(f, entries). length f)") auto

declare Replay_loop.simps [simp del]

text \<open>\<^verbatim>\<open>Replay\<close> of a path: a missing file (\<open>None\<close>) gives no entries and no error.\<close>

definition Replay :: "byte list option \<Rightarrow> error + WALEntry list" where
  "Replay file = (case file of None \<Rightarrow> Inr [] | Some f \<Rightarrow> Replay_loop f [])"

subsection \<open>Records written by \<^verbatim>\<open>Append\<close> are read back by \<^verbatim>\<open>Replay\<close>\<close>

lemma rd32_le32: "rd32 (le32 w) = w"
proof -
  have "rd32 (le32 w) = ucast (ucast w :: byte) OR push_bit 8 (ucast (ucast (drop_bit 8 w) :: byte))
      OR push_bit 16 (ucast (ucast (drop_bit 16 w) :: byte))
      OR push_bit 24 (ucast (ucast (drop_bit 24 w) :: byte))"
    by (simp add: rd32_def le32_def)
  also have "\<dots> = w"
  proof (rule bit_word_eqI)
    fix n assume "n < LENGTH(32)"
    then have n: "n < 32" by simp
    consider "n < 8" | "8 \<le> n" "n < 16" | "16 \<le> n" "n < 24" | "24 \<le> n" "n < 32"
      using n by linarith
    then show "bit (ucast (ucast w :: byte) OR push_bit 8 (ucast (ucast (drop_bit 8 w) :: byte))
      OR push_bit 16 (ucast (ucast (drop_bit 16 w) :: byte))
      OR push_bit 24 (ucast (ucast (drop_bit 24 w) :: byte)) :: u32) n = bit w n"
      by cases (auto simp add: bit_simps)
  qed
  finally show ?thesis .
qed

lemma length_le32 [simp]: "length (le32 w) = 4"
  by (simp add: le32_def)

lemma rd32_append: "length a = 4 \<Longrightarrow> rd32 (a @ b) = rd32 a"
  by (simp add: rd32_def nth_append)

lemma unat_of_nat_u32: "n < 2 ^ 32 \<Longrightarrow> unat (of_nat n :: u32) = n"
  by (simp add: unat_of_nat)

text \<open>An entry whose payload passes the size check of \<^verbatim>\<open>Replay\<close> (at most 64 MiB).\<close>

definition wal_fits :: "WALEntry \<Rightarrow> bool" where
  "wal_fits e \<longleftrightarrow> 9 + length (Key e) + length (Value e) \<le> 64 * 1024 * 1024"

lemma length_wal_payload: "length (wal_payload e) = 9 + length (Key e) + length (Value e)"
  by (simp add: wal_payload_def)

lemma slice_append_mid: "slice (a @ b @ c) (length a) (length a + length b) = Some b"
  by (simp add: slice_def)

lemma decodePayload_wal_payload:
  assumes "wal_fits e"
  shows "decodePayload (wal_payload e) = Inr e"
proof -
  let ?k = "length (Key e)" and ?v = "length (Value e)"
  let ?p = "wal_payload e"
  have bound: "9 + ?k + ?v < 2 ^ 32" using assms by (simp add: wal_fits_def)
  have len: "length ?p = 9 + ?k + ?v" by (rule length_wal_payload)
  have keyLen: "rd32 (take 4 (drop 1 ?p)) = of_nat ?k"
    by (simp add: wal_payload_def rd32_le32)
  have w2: "(5 + of_nat ?k :: u32) = of_nat (5 + ?k)" by simp
  have w1: "(of_nat (5 + ?k) + 4 :: u32) = of_nat (9 + ?k)" by simp
  have w3: "(of_nat (9 + ?k) + of_nat ?v :: u32) = of_nat (9 + ?k + ?v)" by simp
  have u1: "unat (of_nat (9 + ?k) :: u32) = 9 + ?k" using bound by (intro unat_of_nat_u32) simp
  have u2: "unat (of_nat (5 + ?k) :: u32) = 5 + ?k" using bound by (intro unat_of_nat_u32) simp
  have u3: "unat (of_nat (9 + ?k + ?v) :: u32) = 9 + ?k + ?v"
    using bound by (intro unat_of_nat_u32)
  have c1: "\<not> (of_nat (length ?p) :: u32) < of_nat (9 + ?k)"
    unfolding len by (simp only: word_less_nat_alt u1 u3)
  have s1: "slice ?p 5 (5 + ?k) = Some (Key e)"
    using slice_append_mid [of "[Op e] @ le32 (of_nat ?k)" "Key e" "le32 (of_nat ?v) @ Value e"]
    by (simp add: wal_payload_def)
  have s2: "slice ?p (5 + ?k) (9 + ?k) = Some (le32 (of_nat ?v))"
    using slice_append_mid [of "[Op e] @ le32 (of_nat ?k) @ Key e" "le32 (of_nat ?v)" "Value e"]
    by (simp add: wal_payload_def add.commute)
  have s3: "slice ?p (9 + ?k) (9 + ?k + ?v) = Some (Value e)"
    using slice_append_mid [of "[Op e] @ le32 (of_nat ?k) @ Key e @ le32 (of_nat ?v)" "Value e" "[]"]
    by (simp add: wal_payload_def add.commute)
  have c2: "\<not> (of_nat (length ?p) :: u32) < of_nat (9 + ?k + ?v)"
    unfolding len by simp
  have l9: "\<not> length ?p < 9" unfolding len by simp
  have op: "?p ! 0 = Op e" by (simp add: wal_payload_def)
  show ?thesis
    unfolding decodePayload_def Let_def keyLen
    by (simp only: w2 w1 u1 u2 s1 s2 c1 l9 op option.case if_False rd32_le32 w3 u3 c2 s3) simp
qed

lemma Replay_loop_record:
  assumes "wal_fits e"
  shows "Replay_loop (wal_record e @ rest) acc = Replay_loop rest (acc @ [e])"
proof -
  let ?p = "wal_payload e"
  let ?f = "wal_record e @ rest"
  have plen: "length ?p \<le> 64 * 1024 * 1024"
    using assms by (simp add: wal_fits_def length_wal_payload)
  then have u: "unat (of_nat (length ?p) :: u32) = length ?p"
    by (intro unat_of_nat_u32) simp
  have f: "?f = le32 (of_nat (length ?p)) @ le32 (ChecksumIEEE ?p) @ ?p @ rest"
    by (simp add: wal_record_def Let_def)
  have l8: "\<not> length ?f < 8" by (simp add: f)
  have h1: "rd32 (take 4 ?f) = of_nat (length ?p)" by (simp add: f rd32_le32)
  have h2: "rd32 (take 4 (drop 4 ?f)) = ChecksumIEEE ?p" by (simp add: f rd32_le32)
  have r: "drop 8 ?f = ?p @ rest" by (simp add: f)
  have big: "\<not> (of_nat (length ?p) :: u32) > 64 * 1024 * 1024"
    using plen by (simp add: word_less_nat_alt u)
  show ?thesis
    by (subst Replay_loop.simps)
       (simp only: l8 h1 h2 r big u Let_def if_False, simp add: decodePayload_wal_payload [OF assms])
qed


text \<open>One iteration of the loop of \<^verbatim>\<open>Replay\<close>, for the proofs: stop, panic, or one entry
  and the bytes after its record.\<close>

datatype wal_step = Stop | Crash | Next WALEntry "byte list"

definition wal_next :: "byte list \<Rightarrow> wal_step" where
  "wal_next f =
     (if length f < 8 then Stop
      else if rd32 (take 4 f) > 64 * 1024 * 1024 then Stop
      else if length (drop 8 f) < unat (rd32 (take 4 f)) then Stop
      else if ChecksumIEEE (take (unat (rd32 (take 4 f))) (drop 8 f)) \<noteq> rd32 (take 4 (drop 4 f))
           then Stop
      else (case decodePayload (take (unat (rd32 (take 4 f))) (drop 8 f)) of
              Inl Panic \<Rightarrow> Crash
            | Inl _ \<Rightarrow> Stop
            | Inr entry \<Rightarrow> Next entry (drop (unat (rd32 (take 4 f))) (drop 8 f))))"

lemma Replay_loop_next:
  "Replay_loop f acc =
     (case wal_next f of Stop \<Rightarrow> Inr acc | Crash \<Rightarrow> Inl Panic
      | Next e rest \<Rightarrow> Replay_loop rest (acc @ [e]))"
  by (subst Replay_loop.simps)
     (auto simp: wal_next_def Let_def split: sum.splits error.splits)

lemma wal_next_shorter: "wal_next f = Next e rest \<Longrightarrow> length rest < length f"
  by (auto simp: wal_next_def split: if_splits sum.splits error.splits)

lemma Replay_loop_acc:
  "Replay_loop f acc = (case Replay_loop f [] of Inl e \<Rightarrow> Inl e | Inr rs \<Rightarrow> Inr (acc @ rs))"
proof (induction f arbitrary: acc rule: length_induct)
  case (1 f)
  show ?case
  proof (cases "wal_next f")
    case Stop
    then show ?thesis by (simp add: Replay_loop_next [of f])
  next
    case Crash
    then show ?thesis by (simp add: Replay_loop_next [of f])
  next
    case (Next e rest)
    then have sh: "length rest < length f" by (rule wal_next_shorter)
    have a: "Replay_loop rest (acc @ [e]) =
        (case Replay_loop rest [] of Inl x \<Rightarrow> Inl x | Inr rs \<Rightarrow> Inr ((acc @ [e]) @ rs))"
      using 1 sh by blast
    have b: "Replay_loop rest [e] =
        (case Replay_loop rest [] of Inl x \<Rightarrow> Inl x | Inr rs \<Rightarrow> Inr ([e] @ rs))"
      using 1 sh by blast
    show ?thesis
      using Next a b by (simp add: Replay_loop_next [of f] split: sum.splits)
  qed
qed

text \<open>A log written by successive calls of \<^verbatim>\<open>Append\<close>.\<close>

fun Append_all :: "byte list \<Rightarrow> WALEntry list \<Rightarrow> byte list" where
  "Append_all file [] = file"
| "Append_all file (e # es) = Append_all (Append file e) es"

lemma Append_all_append: "Append_all w es = w @ Append_all [] es"
proof (induction es arbitrary: w)
  case Nil
  then show ?case by simp
next
  case (Cons e es)
  show ?case using Cons [of "Append w e"] Cons [of "Append [] e"] by (simp add: Append_def)
qed

lemma Replay_loop_records:
  "\<forall>e\<in>set es. wal_fits e \<Longrightarrow>
     Replay_loop (Append_all [] es @ g) acc = Replay_loop g (acc @ es)"
proof (induction es arbitrary: acc)
  case Nil
  then show ?case by simp
next
  case (Cons e es)
  have "Append_all [] (e # es) @ g = wal_record e @ (Append_all [] es @ g)"
    using Append_all_append [of "Append [] e" es] by (simp add: Append_def)
  then show ?case using Cons by (simp add: Replay_loop_record)
qed

lemma Replay_loop_short: "length g < 8 \<Longrightarrow> Replay_loop g acc = Inr acc"
  by (subst Replay_loop.simps) simp

lemma crc32_update_unfold:
  "crc32_update c b = crc32_shift (crc32_shift (crc32_shift (crc32_shift
     (crc32_shift (crc32_shift (crc32_shift (crc32_shift (c XOR ucast b))))))))"
  by (simp add: crc32_update_def eval_nat_numeral)


lemmas crc_eval = ChecksumIEEE_def crc32_update_unfold crc32_shift_def

subsection \<open>A declared length that overflows\<close>

text \<open>
  Claim C5 fails on the code, by a slip in \<^verbatim>\<open>decodePayload\<close>: the bound
  \<^verbatim>\<open>5+keyLen+4\<close> is computed in uint32 and wraps. The payload below is 9 bytes long,
  declares a key of \<open>0xFFFFFFF7\<close> bytes, and its frame carries the right length and
  CRC. The check \<^verbatim>\<open>uint32(len(payload)) < 5+keyLen+4\<close> compares 9 with 0 and passes, and
  the slice \<^verbatim>\<open>payload[5:5+keyLen]\<close> panics: replay of a log that holds one good record
  followed by this frame crashes instead of returning the good record.
\<close>

definition overflow_payload :: "byte list" where
  "overflow_payload = [1, 0xF7, 0xFF, 0xFF, 0xFF, 0, 0, 0, 0]"

definition overflow_frame :: "byte list" where
  "overflow_frame = [9, 0, 0, 0, 0xCE, 0x3B, 0x4A, 0xB8] @ overflow_payload"

lemma wal_next_overflow_frame: "wal_next overflow_frame = Crash"
proof -
  have crc: "ChecksumIEEE overflow_payload = 0xB84A3BCE"
    by (simp add: overflow_payload_def crc_eval)
  have dec: "decodePayload overflow_payload = Inl Panic"
    by (simp add: overflow_payload_def decodePayload_def slice_def rd32_def)
  have len: "rd32 (take 4 overflow_frame) = 9"
    by (simp add: overflow_frame_def rd32_def)
  have stored: "rd32 (take 4 (drop 4 overflow_frame)) = 0xB84A3BCE"
    by (simp add: overflow_frame_def rd32_def)
  have rest: "drop 8 overflow_frame = overflow_payload"
    by (simp add: overflow_frame_def)
  have l: "length overflow_frame = 17" "length overflow_payload = 9"
    by (simp_all add: overflow_frame_def overflow_payload_def)
  show ?thesis
    unfolding wal_next_def len stored rest
    by (simp add: l crc dec)
qed

theorem replay_declared_length_overflow:
  "ChecksumIEEE overflow_payload = rd32 (take 4 (drop 4 overflow_frame)) \<and>
   rd32 (take 4 (drop 1 overflow_payload)) = 0xFFFFFFF7 \<and>
   decodePayload overflow_payload = Inl Panic \<and>
   Replay (Some (Append [] \<lparr>Op = 1, Key = [0x67], Value = [0x64]\<rparr> @ overflow_frame))
     = Inl Panic"
proof -
  let ?e = "\<lparr>Op = 1, Key = [0x67], Value = [0x64]\<rparr>"
  have crc: "ChecksumIEEE overflow_payload = 0xB84A3BCE"
    by (simp add: overflow_payload_def crc_eval)
  have stored: "rd32 (take 4 (drop 4 overflow_frame)) = 0xB84A3BCE"
    by (simp add: overflow_frame_def rd32_def)
  have kl: "rd32 (take 4 (drop 1 overflow_payload)) = 0xFFFFFFF7"
    by (simp add: overflow_payload_def rd32_def)
  have dec: "decodePayload overflow_payload = Inl Panic"
    by (simp add: overflow_payload_def decodePayload_def slice_def rd32_def)
  have fits: "wal_fits ?e" by (simp add: wal_fits_def)
  have "Replay_loop (wal_record ?e @ overflow_frame) [] = Replay_loop overflow_frame ([] @ [?e])"
    using fits by (rule Replay_loop_record)
  also have "\<dots> = Inl Panic"
    by (simp add: Replay_loop_next [of overflow_frame] wal_next_overflow_frame)
  finally have "Replay (Some (Append [] ?e @ overflow_frame)) = Inl Panic"
    by (simp add: Replay_def Append_def)
  then show ?thesis using crc stored kl dec by simp
qed

subsection \<open>Bytes after the last record\<close>

text \<open>
  What replay makes of bytes that follow a log written by \<^verbatim>\<open>Append\<close> (with payloads
  within the 64 MiB bound of \<^verbatim>\<open>Replay\<close>): it returns the records of the log, then
  goes on with the appended bytes as if they were a log of their own. Bytes from which
  replay recovers nothing, such as any string of fewer than 8 bytes, leave the result
  unchanged.
\<close>

lemma Replay_appended:
  "\<forall>e\<in>set es. wal_fits e \<Longrightarrow>
     Replay (Some (Append_all [] es @ g))
       = (case Replay (Some g) of Inl x \<Rightarrow> Inl x | Inr rs \<Rightarrow> Inr (es @ rs))"
proof -
  assume fits: "\<forall>e\<in>set es. wal_fits e"
  have "Replay_loop (Append_all [] es @ g) [] = Replay_loop g ([] @ es)"
    using fits by (rule Replay_loop_records)
  then show ?thesis using Replay_loop_acc [of g es] by (simp add: Replay_def)
qed

lemma Replay_appended_short:
  "\<forall>e\<in>set es. wal_fits e \<Longrightarrow> length g < 8 \<Longrightarrow>
     Replay (Some (Append_all [] es @ g)) = Inr es"
  using Replay_appended [of es g] by (simp add: Replay_def Replay_loop_short)

text \<open>Seventeen bytes that no call of \<^verbatim>\<open>Append\<close> writes: a frame of length 9 with
  the CRC of its payload, which declares an empty key and a value of \<open>0xFFFFFFF7\<close>
  bytes.\<close>

definition garbage_payload :: "byte list" where
  "garbage_payload = [1, 0, 0, 0, 0, 0xF7, 0xFF, 0xFF, 0xFF]"

definition garbage_tail :: "byte list" where
  "garbage_tail = [9, 0, 0, 0, 0xE1, 0x08, 0x7D, 0xEA] @ garbage_payload"

lemma wal_next_garbage_tail: "wal_next garbage_tail = Crash"
proof -
  have crc: "ChecksumIEEE garbage_payload = 0xEA7D08E1"
    by (simp add: garbage_payload_def crc_eval)
  have dec: "decodePayload garbage_payload = Inl Panic"
    by (simp add: garbage_payload_def decodePayload_def slice_def rd32_def)
  have len: "rd32 (take 4 garbage_tail) = 9"
    by (simp add: garbage_tail_def rd32_def)
  have stored: "rd32 (take 4 (drop 4 garbage_tail)) = 0xEA7D08E1"
    by (simp add: garbage_tail_def rd32_def)
  have rest: "drop 8 garbage_tail = garbage_payload"
    by (simp add: garbage_tail_def)
  have l: "length garbage_tail = 17" "length garbage_payload = 9"
    by (simp_all add: garbage_tail_def garbage_payload_def)
  show ?thesis
    unfolding wal_next_def len stored rest
    by (simp add: l crc dec)
qed

text \<open>
  Claim C6 fails on the code, by the same slip as claim C5, here in the check of the
  value length. The log of the repository's test holds one record, the put of "good" with
  the value "data", and replays to that record. Append the 17 bytes below: a frame of
  length 9 whose CRC matches its payload, which declares an empty key and a value of
  \<open>0xFFFFFFF7\<close> bytes. They are no record that \<^verbatim>\<open>Append\<close> could have written, and
  the claim has replay return the one valid record as before. In the code
  \<^verbatim>\<open>valOff+4+valLen\<close> wraps to 0 in uint32, the check
  \<^verbatim>\<open>uint32(len(payload)) < valOff+4+valLen\<close> passes, and the slice
  \<^verbatim>\<open>payload[valOff+4:valOff+4+valLen]\<close> panics: replay crashes and returns nothing.
\<close>

theorem replay_garbage_tail_crashes:
  "Replay (Some (Append [] \<lparr>Op = 1, Key = [0x67, 0x6f, 0x6f, 0x64],
                             Value = [0x64, 0x61, 0x74, 0x61]\<rparr>))
     = Inr [\<lparr>Op = 1, Key = [0x67, 0x6f, 0x6f, 0x64], Value = [0x64, 0x61, 0x74, 0x61]\<rparr>] \<and>
   Replay (Some (Append [] \<lparr>Op = 1, Key = [0x67, 0x6f, 0x6f, 0x64],
                             Value = [0x64, 0x61, 0x74, 0x61]\<rparr> @ garbage_tail))
     = Inl Panic"
proof -
  let ?e = "\<lparr>Op = 1, Key = [0x67, 0x6f, 0x6f, 0x64], Value = [0x64, 0x61, 0x74, 0x61]\<rparr>"
  have fits: "wal_fits ?e" by (simp add: wal_fits_def)
  have "Replay_loop (wal_record ?e @ []) [] = Replay_loop [] ([] @ [?e])"
    using fits by (rule Replay_loop_record)
  then have a: "Replay (Some (Append [] ?e)) = Inr [?e]"
    by (simp add: Replay_def Append_def Replay_loop_short)
  have "Replay_loop (wal_record ?e @ garbage_tail) [] = Replay_loop garbage_tail ([] @ [?e])"
    using fits by (rule Replay_loop_record)
  also have "\<dots> = Inl Panic"
    by (simp add: Replay_loop_next [of garbage_tail] wal_next_garbage_tail)
  finally have b: "Replay (Some (Append [] ?e @ garbage_tail)) = Inl Panic"
    by (simp add: Replay_def Append_def)
  show ?thesis using a b by simp
qed

section \<open>Compaction (compaction.go)\<close>

text \<open>
  \<^verbatim>\<open>SSTableEntry\<close> of sstable.go. The fields are \<^verbatim>\<open>Key\<close>, \<^verbatim>\<open>Value\<close> and
  \<^verbatim>\<open>Tombstone\<close>; the first two carry a prefix here, since \<^verbatim>\<open>WALEntry\<close> has fields
  of the same names. The code only ever takes the length and the bytes of
  \<^verbatim>\<open>Value\<close>, so a nil and an empty \<^verbatim>\<open>Value\<close> are the same \<open>[]\<close>.
\<close>

record SSTableEntry =
  EKey :: "byte list"
  EValue :: "byte list"
  Tombstone :: bool

text \<open>The zero value of the struct, which \<^verbatim>\<open>var winner SSTableEntry\<close> starts from.\<close>

definition zeroEntry :: SSTableEntry where
  "zeroEntry = \<lparr>EKey = [], EValue = [], Tombstone = False\<rparr>"

text \<open>
  The first inner loop of \<^verbatim>\<open>kWayMerge\<close>: one iteration at index \<open>i\<close>, on the pair
  \<^verbatim>\<open>(minKey, minSet)\<close>, and the loop over all indices of \<^verbatim>\<open>positions\<close>.
\<close>

definition find_min_step ::
  "SSTableEntry list list \<Rightarrow> nat list \<Rightarrow> byte list \<times> int \<Rightarrow> nat \<Rightarrow> byte list \<times> int" where
  "find_min_step sets positions st i =
     (case st of (minKey, minSet) \<Rightarrow>
        if positions ! i \<ge> length (sets ! i) then (minKey, minSet)
        else
          let key = EKey (sets ! i ! (positions ! i))
          in if minSet = - 1 \<or> key < minKey then (key, int i) else (minKey, minSet))"

definition find_min :: "SSTableEntry list list \<Rightarrow> nat list \<Rightarrow> byte list \<times> int" where
  "find_min sets positions =
     foldl (find_min_step sets positions) ([], - 1) [0..<length positions]"

text \<open>
  The second inner loop: one iteration on \<^verbatim>\<open>(winner, winnerIdx, positions)\<close>. The
  \<^verbatim>\<open>range\<close> clause reads \<^verbatim>\<open>positions[i]\<close> when iteration \<open>i\<close> starts, and only
  iteration \<open>i\<close> writes it.
\<close>

definition pick_step ::
  "SSTableEntry list list \<Rightarrow> byte list \<Rightarrow> SSTableEntry \<times> int \<times> nat list \<Rightarrow> nat
     \<Rightarrow> SSTableEntry \<times> int \<times> nat list" where
  "pick_step sets minKey st i =
     (case st of (winner, winnerIdx, positions) \<Rightarrow>
        if positions ! i \<ge> length (sets ! i) then (winner, winnerIdx, positions)
        else if EKey (sets ! i ! (positions ! i)) = minKey
        then
          (if winnerIdx = - 1 \<or> int i < winnerIdx
           then (sets ! i ! (positions ! i), int i, positions[i := positions ! i + 1])
           else (winner, winnerIdx, positions[i := positions ! i + 1]))
        else (winner, winnerIdx, positions))"

definition pick_winner ::
  "SSTableEntry list list \<Rightarrow> byte list \<Rightarrow> nat list \<Rightarrow> SSTableEntry \<times> int \<times> nat list" where
  "pick_winner sets minKey positions =
     foldl (pick_step sets minKey) (zeroEntry, - 1, positions) [0..<length positions]"

text \<open>What is left to read: the sum of the distances of the cursors to the ends.\<close>

definition unread :: "SSTableEntry list list \<Rightarrow> nat list \<Rightarrow> nat" where
  "unread sets positions = (\<Sum>i<length positions. length (sets ! i) - positions ! i)"

subsection \<open>The two inner loops\<close>

text \<open>Cursor \<open>i\<close> is not exhausted; the key under it; and the cursor points at key \<open>mk\<close>.\<close>

definition active :: "SSTableEntry list list \<Rightarrow> nat list \<Rightarrow> nat \<Rightarrow> bool" where
  "active sets positions i \<longleftrightarrow> positions ! i < length (sets ! i)"

definition curkey :: "SSTableEntry list list \<Rightarrow> nat list \<Rightarrow> nat \<Rightarrow> byte list" where
  "curkey sets positions i = EKey (sets ! i ! (positions ! i))"

lemma find_min_prefix:
  "foldl (find_min_step sets positions) ([], - 1) [0..<n] = (mk, ms) \<Longrightarrow>
     (ms = - 1 \<longleftrightarrow> (\<forall>i<n. \<not> active sets positions i)) \<and>
     (ms \<noteq> - 1 \<longrightarrow> 0 \<le> ms \<and> nat ms < n \<and> active sets positions (nat ms) \<and>
        mk = curkey sets positions (nat ms) \<and>
        (\<forall>i<n. active sets positions i \<longrightarrow> mk \<le> curkey sets positions i))"
proof (induction n arbitrary: mk ms)
  case 0
  then show ?case by simp
next
  case (Suc n)
  obtain mk0 ms0 where p: "foldl (find_min_step sets positions) ([], - 1) [0..<n] = (mk0, ms0)"
    by (cases "foldl (find_min_step sets positions) ([], - 1) [0..<n]")
  note IH = Suc.IH [OF p]
  have step: "find_min_step sets positions (mk0, ms0) n = (mk, ms)"
    using Suc.prems p by simp
  show ?case
  proof (cases "active sets positions n")
    case False
    then have "mk = mk0" "ms = ms0" using step by (auto simp: find_min_step_def active_def)
    then show ?thesis using IH False by (auto simp: less_Suc_eq)
  next
    case True
    show ?thesis
    proof (cases "ms0 = - 1 \<or> curkey sets positions n < mk0")
      case upd: True
      then have r: "mk = curkey sets positions n" "ms = int n"
        using step True by (auto simp: find_min_step_def active_def curkey_def Let_def)
      have "\<forall>i<n. active sets positions i \<longrightarrow> mk \<le> curkey sets positions i"
        using IH upd r by (cases "ms0 = - 1") auto
      then show ?thesis using r True by (auto simp: less_Suc_eq)
    next
      case keep: False
      then have r: "mk = mk0" "ms = ms0"
        using step True by (auto simp: find_min_step_def active_def curkey_def Let_def)
      then show ?thesis using IH keep True by (auto simp: less_Suc_eq)
    qed
  qed
qed

definition hit :: "SSTableEntry list list \<Rightarrow> nat list \<Rightarrow> byte list \<Rightarrow> nat \<Rightarrow> bool" where
  "hit sets positions mk i \<longleftrightarrow> active sets positions i \<and> curkey sets positions i = mk"

lemma pick_step_eq:
  "pick_step sets mk (w, wi, ps) i =
     (if hit sets ps mk i
      then (if wi = - 1 \<or> int i < wi then sets ! i ! (ps ! i) else w,
            if wi = - 1 \<or> int i < wi then int i else wi,
            ps[i := ps ! i + 1])
      else (w, wi, ps))"
  by (simp add: pick_step_def active_def curkey_def hit_def)

lemma pick_prefix_positions:
  "n \<le> length positions \<Longrightarrow>
   foldl (pick_step sets mk) (w0, - 1, positions) [0..<n] = (w, wi, ps) \<Longrightarrow>
     length ps = length positions \<and>
     (\<forall>i<length positions. ps ! i =
        (if i < n \<and> hit sets positions mk i then positions ! i + 1 else positions ! i))"
proof (induction n arbitrary: w wi ps)
  case 0
  then show ?case by simp
next
  case (Suc n)
  obtain w1 wi1 ps1 where p: "foldl (pick_step sets mk) (w0, - 1, positions) [0..<n] = (w1, wi1, ps1)"
    by (cases "foldl (pick_step sets mk) (w0, - 1, positions) [0..<n]") auto
  have nl: "n < length positions" "n \<le> length positions" using Suc.prems(1) by auto
  note IH = Suc.IH [OF nl(2) p]
  have len1: "length ps1 = length positions" using IH by simp
  have same: "ps1 ! n = positions ! n" using IH nl by simp
  have h: "hit sets ps1 mk n = hit sets positions mk n"
    by (simp add: hit_def active_def curkey_def same)
  have step: "pick_step sets mk (w1, wi1, ps1) n = (w, wi, ps)"
    using Suc.prems(2) p by simp
  show ?case
  proof (cases "hit sets positions mk n")
    case False
    then have "ps = ps1" using step by (simp add: pick_step_eq h)
    moreover have "\<And>i. i < Suc n \<and> hit sets positions mk i \<longleftrightarrow> i < n \<and> hit sets positions mk i"
      using False by (auto simp: less_Suc_eq)
    ultimately show ?thesis using IH by simp
  next
    case True
    then have ps: "ps = ps1[n := positions ! n + 1]"
      using step same by (simp add: pick_step_eq h)
    have "ps ! i = (if i < Suc n \<and> hit sets positions mk i then positions ! i + 1 else positions ! i)"
      if "i < length positions" for i
    proof (cases "i = n")
      case True
      then show ?thesis using ps len1 nl \<open>hit sets positions mk n\<close> by simp
    next
      case False
      then have "ps ! i = ps1 ! i" using ps by simp
      moreover have "i < Suc n \<longleftrightarrow> i < n" using False by auto
      ultimately show ?thesis using IH that by simp
    qed
    then show ?thesis using ps len1 by simp
  qed
qed

definition first_hit ::
  "SSTableEntry list list \<Rightarrow> nat list \<Rightarrow> byte list \<Rightarrow> nat \<Rightarrow> SSTableEntry \<Rightarrow> int \<Rightarrow> bool" where
  "first_hit sets positions mk n w wi \<longleftrightarrow>
     0 \<le> wi \<and> nat wi < n \<and> hit sets positions mk (nat wi) \<and>
     w = sets ! nat wi ! (positions ! nat wi) \<and> (\<forall>i<nat wi. \<not> hit sets positions mk i)"

lemma first_hit_Suc: "first_hit sets positions mk n w wi \<Longrightarrow> first_hit sets positions mk (Suc n) w wi"
  by (simp add: first_hit_def)

lemma first_hit_new:
  "\<forall>i<n. \<not> hit sets positions mk i \<Longrightarrow> hit sets positions mk n \<Longrightarrow>
     first_hit sets positions mk (Suc n) (sets ! n ! (positions ! n)) (int n)"
  by (simp add: first_hit_def)

lemma pick_prefix_winner:
  "n \<le> length positions \<Longrightarrow>
   foldl (pick_step sets mk) (w0, - 1, positions) [0..<n] = (w, wi, ps) \<Longrightarrow>
     ((\<forall>i<n. \<not> hit sets positions mk i) \<longrightarrow> wi = - 1 \<and> w = w0) \<and>
     ((\<exists>i<n. hit sets positions mk i) \<longrightarrow> first_hit sets positions mk n w wi)"
proof (induction n arbitrary: w wi ps)
  case 0
  then show ?case by simp
next
  case (Suc n)
  obtain w1 wi1 ps1 where p: "foldl (pick_step sets mk) (w0, - 1, positions) [0..<n] = (w1, wi1, ps1)"
    by (cases "foldl (pick_step sets mk) (w0, - 1, positions) [0..<n]") auto
  have nl: "n < length positions" "n \<le> length positions" using Suc.prems(1) by auto
  have IH0: "\<forall>i<n. \<not> hit sets positions mk i \<Longrightarrow> wi1 = - 1 \<and> w1 = w0"
    and IH1: "\<exists>i<n. hit sets positions mk i \<Longrightarrow> first_hit sets positions mk n w1 wi1"
    using Suc.IH [OF nl(2) p] by blast+
  have same: "ps1 ! n = positions ! n" using pick_prefix_positions [OF nl(2) p] nl by simp
  have h: "hit sets ps1 mk n = hit sets positions mk n"
    by (simp add: hit_def active_def curkey_def same)
  have step: "pick_step sets mk (w1, wi1, ps1) n = (w, wi, ps)"
    using Suc.prems(2) p by simp
  show ?case
  proof (cases "\<forall>i<n. \<not> hit sets positions mk i")
    case none: True
    have w1: "wi1 = - 1" "w1 = w0" using IH0 [OF none] by simp_all
    show ?thesis
    proof (cases "hit sets positions mk n")
      case True
      have "wi = int n" "w = sets ! n ! (positions ! n)"
        using step w1 same by (simp_all add: pick_step_eq h True)
      then have "first_hit sets positions mk (Suc n) w wi"
        using first_hit_new [OF none True] by simp
      moreover have "\<not> (\<forall>i<Suc n. \<not> hit sets positions mk i)" using True by blast
      ultimately show ?thesis by blast
    next
      case False
      have "wi = - 1" "w = w0" using step w1 by (simp_all add: pick_step_eq h False)
      moreover have "\<not> (\<exists>i<Suc n. hit sets positions mk i)"
        using none False less_Suc_eq by blast
      ultimately show ?thesis by blast
    qed
  next
    case some: False
    then have ex: "\<exists>i<n. hit sets positions mk i" by blast
    have fh: "first_hit sets positions mk n w1 wi1" using IH1 [OF ex] .
    then have "0 \<le> wi1" "nat wi1 < n" by (simp_all add: first_hit_def)
    then have c: "\<not> (wi1 = - 1 \<or> int n < wi1)" by linarith
    have "(w, wi) = (w1, wi1)"
    proof (cases "hit sets positions mk n")
      case True
      then show ?thesis using step c by (simp add: pick_step_eq h)
    next
      case False
      then show ?thesis using step by (simp add: pick_step_eq h)
    qed
    then have "first_hit sets positions mk (Suc n) w wi" using first_hit_Suc [OF fh] by simp
    moreover have "\<not> (\<forall>i<Suc n. \<not> hit sets positions mk i)" using ex less_Suc_eq by blast
    ultimately show ?thesis by blast
  qed
qed

lemma find_min_spec:
  "find_min sets positions = (mk, ms) \<Longrightarrow>
     (ms = - 1 \<longleftrightarrow> (\<forall>i<length positions. \<not> active sets positions i)) \<and>
     (ms \<noteq> - 1 \<longrightarrow> 0 \<le> ms \<and> nat ms < length positions \<and> active sets positions (nat ms) \<and>
        mk = curkey sets positions (nat ms) \<and>
        (\<forall>i<length positions. active sets positions i \<longrightarrow> mk \<le> curkey sets positions i))"
  unfolding find_min_def by (rule find_min_prefix)

lemma pick_winner_positions:
  "pick_winner sets mk positions = (w, wi, ps) \<Longrightarrow>
     length ps = length positions \<and>
     (\<forall>i<length positions. ps ! i =
        (if hit sets positions mk i then positions ! i + 1 else positions ! i))"
  unfolding pick_winner_def
  using pick_prefix_positions [of "length positions" positions sets mk zeroEntry w wi ps]
  by simp

lemma pick_winner_winner:
  "pick_winner sets mk positions = (w, wi, ps) \<Longrightarrow>
   \<exists>i<length positions. hit sets positions mk i \<Longrightarrow>
     first_hit sets positions mk (length positions) w wi"
  unfolding pick_winner_def
  using pick_prefix_winner [of "length positions" positions sets mk zeroEntry w wi ps]
  by blast

lemma find_min_hit:
  assumes "find_min sets positions = (mk, ms)" "ms \<noteq> - 1"
  shows "nat ms < length positions \<and> hit sets positions mk (nat ms)"
  using find_min_spec [OF assms(1)] assms(2) by (simp add: hit_def)

lemma unread_decreases:
  assumes fm: "find_min sets positions = (mk, ms)" and ne: "ms \<noteq> - 1"
    and pw: "pick_winner sets mk positions = (w, wi, ps)"
  shows "unread sets ps < unread sets positions"
proof -
  note P = pick_winner_positions [OF pw]
  let ?i0 = "nat ms"
  have i0: "?i0 < length positions" "hit sets positions mk ?i0"
    using find_min_hit [OF fm ne] by simp_all
  have len: "length ps = length positions" using P by simp
  have le: "\<forall>i\<in>{..<length positions}. length (sets ! i) - ps ! i \<le> length (sets ! i) - positions ! i"
    using P by auto
  have "ps ! ?i0 = positions ! ?i0 + 1" using P i0 by simp
  moreover have "positions ! ?i0 < length (sets ! ?i0)" using i0(2) by (simp add: hit_def active_def)
  ultimately have "length (sets ! ?i0) - ps ! ?i0 < length (sets ! ?i0) - positions ! ?i0"
    by linarith
  then have lt: "\<exists>i\<in>{..<length positions}. length (sets ! i) - ps ! i < length (sets ! i) - positions ! i"
    using i0(1) by blast
  have "(\<Sum>i<length positions. length (sets ! i) - ps ! i)
      < (\<Sum>i<length positions. length (sets ! i) - positions ! i)"
    using le lt by (intro sum_strict_mono_ex1) auto
  then show ?thesis by (simp add: unread_def len)
qed

text \<open>
  The outer loop \<^verbatim>\<open>for { ... }\<close> of \<^verbatim>\<open>kWayMerge\<close>. It terminates because every round
  advances the cursor that held the smallest key.
\<close>

function kWayMerge_loop ::
  "SSTableEntry list list \<Rightarrow> nat list \<Rightarrow> SSTableEntry list \<Rightarrow> SSTableEntry list" where
  "kWayMerge_loop sets positions result =
     (case find_min sets positions of
        (minKey, minSet) \<Rightarrow>
          if minSet = - 1 then result
          else (case pick_winner sets minKey positions of
                  (winner, winnerIdx, positions') \<Rightarrow>
                    kWayMerge_loop sets positions' (result @ [winner])))"
  by pat_completeness auto
termination
proof (relation "measure (\<lambda>(sets, positions, result). unread sets positions)")
  show "wf (measure (\<lambda>(sets, positions, result). unread sets positions))" by simp
next
  fix sets positions result x y xa ya xb yb
  assume "(x, y) = find_min sets positions" "y \<noteq> - 1"
    "(xa, ya) = pick_winner sets x positions" "(xb, yb) = ya"
  then have fm: "find_min sets positions = (x, y)"
    and pw: "pick_winner sets x positions = (xa, xb, yb)" and ne: "y \<noteq> - 1"
    by simp_all
  have "unread sets yb < unread sets positions"
    using fm ne pw by (rule unread_decreases)
  then show "((sets, yb, result @ [xa]), sets, positions, result)
       \<in> measure (\<lambda>(sets, positions, result). unread sets positions)" by simp
qed

definition kWayMerge :: "SSTableEntry list list \<Rightarrow> SSTableEntry list" where
  "kWayMerge sets = kWayMerge_loop sets (replicate (length sets) 0) []"

subsection \<open>Sorted inputs: the merge is sorted and the newest entry of each key wins\<close>

text \<open>
  Strictly increasing keys (sorted, one entry per key); the entry of a key in a sequence;
  the entry of a key in the first sequence of a list that has one (the newest input, as
  the list is ordered newest first); the suffix a cursor leaves after a round; and the
  suffixes still unread.
\<close>

definition keys_sorted :: "SSTableEntry list \<Rightarrow> bool" where
  "keys_sorted es \<longleftrightarrow> sorted_wrt (<) (map EKey es)"

definition lookup :: "SSTableEntry list \<Rightarrow> byte list \<Rightarrow> SSTableEntry option" where
  "lookup es k = List.find (\<lambda>e. EKey e = k) es"

fun newest :: "SSTableEntry list list \<Rightarrow> byte list \<Rightarrow> SSTableEntry option" where
  "newest [] k = None"
| "newest (s # ss) k = (case lookup s k of Some e \<Rightarrow> Some e | None \<Rightarrow> newest ss k)"

definition adv :: "byte list \<Rightarrow> SSTableEntry list \<Rightarrow> SSTableEntry list" where
  "adv mk r = (if r \<noteq> [] \<and> EKey (hd r) = mk then tl r else r)"

definition rems :: "SSTableEntry list list \<Rightarrow> nat list \<Rightarrow> SSTableEntry list list" where
  "rems sets positions = map (\<lambda>i. drop (positions ! i) (sets ! i)) [0..<length positions]"

lemma keys_sorted_Cons:
  "keys_sorted (e # es) \<longleftrightarrow> (\<forall>x\<in>set es. EKey e < EKey x) \<and> keys_sorted es"
  by (auto simp: keys_sorted_def)

lemma keys_sorted_drop: "keys_sorted es \<Longrightarrow> keys_sorted (drop n es)"
  by (simp add: keys_sorted_def sorted_wrt_drop drop_map [symmetric])

lemma keys_sorted_adv: "keys_sorted r \<Longrightarrow> keys_sorted (adv mk r)"
  by (cases r) (auto simp: adv_def keys_sorted_Cons)

lemma adv_above:
  "keys_sorted r \<Longrightarrow> (r \<noteq> [] \<Longrightarrow> mk \<le> EKey (hd r)) \<Longrightarrow> e \<in> set (adv mk r) \<Longrightarrow> mk < EKey e"
  by (cases r) (auto simp: adv_def keys_sorted_Cons split: if_splits)

lemma lookup_adv: "k \<noteq> mk \<Longrightarrow> lookup (adv mk r) k = lookup r k"
  by (cases r) (auto simp: adv_def lookup_def)

lemma lookup_None_iff: "lookup es k = None \<longleftrightarrow> k \<notin> EKey ` set es"
  by (auto simp: lookup_def find_None_iff)

lemma lookup_Some_D: "lookup es k = Some e \<Longrightarrow> e \<in> set es \<and> EKey e = k"
  by (auto simp: lookup_def find_Some_iff)

lemma lookup_min:
  "keys_sorted r \<Longrightarrow> (r \<noteq> [] \<Longrightarrow> mk \<le> EKey (hd r)) \<Longrightarrow>
     lookup r mk = (if r \<noteq> [] \<and> EKey (hd r) = mk then Some (hd r) else None)"
proof (cases r)
  case Nil
  then show ?thesis by (simp add: lookup_def)
next
  case (Cons e es)
  assume s: "keys_sorted r" and m: "r \<noteq> [] \<Longrightarrow> mk \<le> EKey (hd r)"
  show ?thesis
  proof (cases "EKey e = mk")
    case True
    then show ?thesis using Cons by (simp add: lookup_def)
  next
    case False
    then have "mk < EKey e" using m Cons by auto
    then have "\<forall>x\<in>set es. mk < EKey x" using s Cons by (auto simp: keys_sorted_Cons)
    then have "mk \<notin> EKey ` set r" using False Cons by auto
    then show ?thesis using False Cons lookup_None_iff [of r mk] by simp
  qed
qed

lemma lookup_sorted_mem: "keys_sorted es \<Longrightarrow> e \<in> set es \<Longrightarrow> lookup es (EKey e) = Some e"
proof (induction es)
  case Nil
  then show ?case by simp
next
  case (Cons x es)
  then show ?case by (auto simp: lookup_def keys_sorted_Cons)
qed

lemma newest_map_adv: "k \<noteq> mk \<Longrightarrow> newest (map (adv mk) rs) k = newest rs k"
  by (induction rs) (simp_all add: lookup_adv split: option.splits)

lemma newest_nth:
  "j < length rs \<Longrightarrow> \<forall>i<j. lookup (rs ! i) k = None \<Longrightarrow> lookup (rs ! j) k = Some e \<Longrightarrow>
     newest rs k = Some e"
proof (induction rs arbitrary: j)
  case Nil
  then show ?case by simp
next
  case (Cons r rs)
  show ?case
  proof (cases j)
    case 0
    then show ?thesis using Cons.prems by simp
  next
    case (Suc j')
    have "lookup r k = None" using Cons.prems(2) Suc by auto
    moreover have "newest rs k = Some e"
      using Cons.prems Suc by (intro Cons.IH [of j']) auto
    ultimately show ?thesis by simp
  qed
qed

lemma newest_None: "\<forall>r\<in>set rs. lookup r k = None \<Longrightarrow> newest rs k = None"
  by (induction rs) simp_all

lemma newest_Some_D: "newest rs k = Some e \<Longrightarrow> \<exists>r\<in>set rs. e \<in> set r \<and> EKey e = k"
  by (induction rs) (auto split: option.splits dest: lookup_Some_D)

text \<open>One iteration, read on the remaining suffixes.\<close>

lemma rems_length [simp]: "length (rems sets positions) = length positions"
  by (simp add: rems_def)

lemma rems_nth: "i < length positions \<Longrightarrow> rems sets positions ! i = drop (positions ! i) (sets ! i)"
  by (simp add: rems_def)

lemma hit_rems:
  "i < length positions \<Longrightarrow>
     hit sets positions mk i \<longleftrightarrow>
       rems sets positions ! i \<noteq> [] \<and> EKey (hd (rems sets positions ! i)) = mk"
  by (auto simp: hit_def active_def curkey_def rems_nth hd_drop_conv_nth)

lemma active_rems:
  "i < length positions \<Longrightarrow> active sets positions i \<longleftrightarrow> rems sets positions ! i \<noteq> []"
  by (auto simp: active_def rems_nth)

lemma curkey_rems:
  "i < length positions \<Longrightarrow> active sets positions i \<Longrightarrow>
     curkey sets positions i = EKey (hd (rems sets positions ! i))"
  by (auto simp: active_def curkey_def rems_nth hd_drop_conv_nth)

lemma rems_pick:
  assumes pw: "pick_winner sets mk positions = (w, wi, ps)"
  shows "rems sets ps = map (adv mk) (rems sets positions)"
proof (rule nth_equalityI)
  note P = pick_winner_positions [OF pw]
  show "length (rems sets ps) = length (map (adv mk) (rems sets positions))" using P by simp
  fix i assume "i < length (rems sets ps)"
  then have i: "i < length positions" "i < length ps" using P by simp_all
  have psi: "ps ! i = (if hit sets positions mk i then positions ! i + 1 else positions ! i)"
    using P i by simp
  show "rems sets ps ! i = map (adv mk) (rems sets positions) ! i"
  proof (cases "hit sets positions mk i")
    case True
    then have "adv mk (rems sets positions ! i) = tl (rems sets positions ! i)"
      using hit_rems [OF i(1)] by (simp add: adv_def)
    then show ?thesis using True psi i by (simp add: rems_nth drop_Suc tl_drop)
  next
    case False
    then have "adv mk (rems sets positions ! i) = rems sets positions ! i"
      using hit_rems [OF i(1)] by (auto simp: adv_def)
    then show ?thesis using False psi i by (simp add: rems_nth)
  qed
qed

declare kWayMerge_loop.simps [simp del]

lemma kWayMerge_loop_done:
  "find_min sets positions = (mk, - 1) \<Longrightarrow> kWayMerge_loop sets positions result = result"
  by (simp add: kWayMerge_loop.simps [of sets positions])

lemma kWayMerge_loop_step:
  "find_min sets positions = (mk, ms) \<Longrightarrow> ms \<noteq> - 1 \<Longrightarrow>
   pick_winner sets mk positions = (w, wi, ps) \<Longrightarrow>
     kWayMerge_loop sets positions result = kWayMerge_loop sets ps (result @ [w])"
  by (simp add: kWayMerge_loop.simps [of sets positions])

lemma kWayMerge_loop_acc:
  "kWayMerge_loop sets positions result = result @ kWayMerge_loop sets positions []"
proof (induction "unread sets positions" arbitrary: positions result rule: less_induct)
  case less
  obtain mk ms where fm: "find_min sets positions = (mk, ms)" by (cases "find_min sets positions")
  show ?case
  proof (cases "ms = - 1")
    case True
    then show ?thesis using fm kWayMerge_loop_done [of sets positions mk] by simp
  next
    case False
    obtain w wi ps where pw: "pick_winner sets mk positions = (w, wi, ps)"
      by (cases "pick_winner sets mk positions") auto
    have d: "unread sets ps < unread sets positions" using fm False pw by (rule unread_decreases)
    have a: "kWayMerge_loop sets ps (result @ [w]) = (result @ [w]) @ kWayMerge_loop sets ps []"
      using less [OF d] .
    have b: "kWayMerge_loop sets ps ([] @ [w]) = ([] @ [w]) @ kWayMerge_loop sets ps []"
      using less [OF d] .
    show ?thesis
      using kWayMerge_loop_step [OF fm False pw, of result]
            kWayMerge_loop_step [OF fm False pw, of "[]"] a b by simp
  qed
qed

lemma kWayMerge_loop_Cons:
  "find_min sets positions = (mk, ms) \<Longrightarrow> ms \<noteq> - 1 \<Longrightarrow>
   pick_winner sets mk positions = (w, wi, ps) \<Longrightarrow>
     kWayMerge_loop sets positions [] = w # kWayMerge_loop sets ps []"
  using kWayMerge_loop_step [of sets positions mk ms w wi ps "[]"]
        kWayMerge_loop_acc [of sets ps "[w]"] by simp

lemma find_min_none:
  assumes "find_min sets positions = (mk, - 1)"
  shows "\<forall>r\<in>set (rems sets positions). r = []"
proof
  fix r assume "r \<in> set (rems sets positions)"
  then obtain i where i: "i < length positions" "r = rems sets positions ! i"
    by (auto simp: in_set_conv_nth)
  have "\<forall>i<length positions. \<not> active sets positions i"
    using find_min_spec [OF assms] by blast
  then have "\<not> active sets positions i" using i by blast
  then show "r = []" using i active_rems [of i positions sets] by blast
qed

lemma find_min_least:
  assumes fm: "find_min sets positions = (mk, ms)" and ne: "ms \<noteq> - 1"
    and r: "r \<in> set (rems sets positions)" "r \<noteq> []"
  shows "mk \<le> EKey (hd r)"
proof -
  obtain i where i: "i < length positions" "r = rems sets positions ! i"
    using r(1) by (auto simp: in_set_conv_nth)
  have a: "active sets positions i" using i r(2) active_rems [of i positions sets] by blast
  have "\<forall>i<length positions. active sets positions i \<longrightarrow> mk \<le> curkey sets positions i"
    using find_min_spec [OF fm] ne by blast
  then have "mk \<le> curkey sets positions i" using i a by blast
  then show ?thesis using curkey_rems [OF i(1) a] i by simp
qed

lemma pick_winner_first:
  assumes fm: "find_min sets positions = (mk, ms)" and ne: "ms \<noteq> - 1"
    and pw: "pick_winner sets mk positions = (w, wi, ps)"
  shows "\<exists>j<length positions.
           rems sets positions ! j \<noteq> [] \<and> w = hd (rems sets positions ! j) \<and> EKey w = mk \<and>
           (\<forall>i<j. \<not> (rems sets positions ! i \<noteq> [] \<and> EKey (hd (rems sets positions ! i)) = mk))"
proof -
  have ex: "\<exists>i<length positions. hit sets positions mk i"
    using find_min_hit [OF fm ne] by blast
  have fh: "first_hit sets positions mk (length positions) w wi"
    using pw ex by (rule pick_winner_winner)
  let ?j = "nat wi"
  have j: "?j < length positions" and hj: "hit sets positions mk ?j"
    and w: "w = sets ! ?j ! (positions ! ?j)" and before: "\<forall>i<?j. \<not> hit sets positions mk i"
    using fh by (simp_all add: first_hit_def)
  have r1: "rems sets positions ! ?j \<noteq> []" "EKey (hd (rems sets positions ! ?j)) = mk"
    using hit_rems [OF j, of sets mk] hj by simp_all
  have r2: "w = hd (rems sets positions ! ?j)"
    using hj w j by (simp add: hit_def active_def rems_nth hd_drop_conv_nth)
  have r3: "\<not> (rems sets positions ! i \<noteq> [] \<and> EKey (hd (rems sets positions ! i)) = mk)"
    if "i < ?j" for i
  proof -
    have il: "i < length positions" using that j by simp
    have "\<not> hit sets positions mk i" using before that by blast
    then show ?thesis using hit_rems [OF il, of sets mk] by simp
  qed
  show ?thesis using j r1 r2 r3 by blast
qed

text \<open>The list-level step: the winner in front of the merge of the advanced suffixes.\<close>

lemma merge_step_lists:
  assumes sorted: "\<forall>r\<in>set rs. keys_sorted r"
    and least: "\<And>r. r \<in> set rs \<Longrightarrow> r \<noteq> [] \<Longrightarrow> mk \<le> EKey (hd r)"
    and j: "j < length rs" "rs ! j \<noteq> []" "w = hd (rs ! j)" "EKey w = mk"
       "\<forall>i<j. \<not> (rs ! i \<noteq> [] \<and> EKey (hd (rs ! i)) = mk)"
    and IH1: "keys_sorted M'" and IH2: "\<And>k. lookup M' k = newest (map (adv mk) rs) k"
  shows "keys_sorted (w # M')" and "lookup (w # M') k = newest rs k"
proof -
  have above: "mk < EKey e" if "e \<in> set M'" for e
  proof -
    have "lookup M' (EKey e) = Some e" using IH1 that by (rule lookup_sorted_mem)
    then have "newest (map (adv mk) rs) (EKey e) = Some e" using IH2 by simp
    then obtain r' where "r' \<in> set (map (adv mk) rs)" "e \<in> set r'"
      using newest_Some_D by blast
    then obtain r where r: "r \<in> set rs" "e \<in> set (adv mk r)" by auto
    have "keys_sorted r" using sorted r(1) by blast
    then show ?thesis using least [OF r(1)] r(2) by (rule adv_above)
  qed
  show "keys_sorted (w # M')" using IH1 above j(4) by (simp add: keys_sorted_Cons)
  show "lookup (w # M') k = newest rs k"
  proof (cases "k = mk")
    case True
    have none: "lookup (rs ! i) mk = None" if "i < j" for i
    proof -
      have m: "rs ! i \<in> set rs" using that j(1) by simp
      have "keys_sorted (rs ! i)" using sorted m by blast
      then have "lookup (rs ! i) mk =
          (if rs ! i \<noteq> [] \<and> EKey (hd (rs ! i)) = mk then Some (hd (rs ! i)) else None)"
        using least [OF m] by (rule lookup_min)
      then show ?thesis using j(5) that by simp
    qed
    have m: "rs ! j \<in> set rs" using j(1) by simp
    have "keys_sorted (rs ! j)" using sorted m by blast
    then have "lookup (rs ! j) mk =
        (if rs ! j \<noteq> [] \<and> EKey (hd (rs ! j)) = mk then Some (hd (rs ! j)) else None)"
      using least [OF m] by (rule lookup_min)
    then have "lookup (rs ! j) mk = Some w" using j by simp
    then have "newest rs mk = Some w" using j(1) none by (intro newest_nth [of j]) simp_all
    then show ?thesis using True j(4) by (simp add: lookup_def)
  next
    case False
    then have "lookup (w # M') k = lookup M' k" using j(4) by (simp add: lookup_def)
    then show ?thesis using IH2 False by (simp add: newest_map_adv)
  qed
qed

lemma merge_invariant:
  "\<forall>r\<in>set (rems sets positions). keys_sorted r \<Longrightarrow>
     keys_sorted (kWayMerge_loop sets positions []) \<and>
     (\<forall>k. lookup (kWayMerge_loop sets positions []) k = newest (rems sets positions) k)"
proof (induction "unread sets positions" arbitrary: positions rule: less_induct)
  case less
  let ?rs = "rems sets positions"
  obtain mk ms where fm: "find_min sets positions = (mk, ms)" by (cases "find_min sets positions")
  show ?case
  proof (cases "ms = - 1")
    case True
    have "\<forall>r\<in>set ?rs. r = []" using fm True find_min_none by blast
    then have "\<forall>r\<in>set ?rs. lookup r k = None" for k by (auto simp: lookup_def)
    then have "newest ?rs k = None" for k by (rule newest_None)
    moreover have "kWayMerge_loop sets positions [] = []"
      using fm True kWayMerge_loop_done [of sets positions mk] by simp
    ultimately show ?thesis by (simp add: keys_sorted_def lookup_def)
  next
    case False
    obtain w wi ps where pw: "pick_winner sets mk positions = (w, wi, ps)"
      by (cases "pick_winner sets mk positions") auto
    have d: "unread sets ps < unread sets positions" using fm False pw by (rule unread_decreases)
    have rs': "rems sets ps = map (adv mk) ?rs" using pw by (rule rems_pick)
    let ?M' = "kWayMerge_loop sets ps []"
    have M: "kWayMerge_loop sets positions [] = w # ?M'"
      using fm False pw by (rule kWayMerge_loop_Cons)
    have sorted': "\<forall>r\<in>set (rems sets ps). keys_sorted r"
      using less.prems by (simp add: rs' keys_sorted_adv)
    have IH: "keys_sorted ?M' \<and> (\<forall>k. lookup ?M' k = newest (rems sets ps) k)"
      using d sorted' by (rule less.hyps)
    have IH1: "keys_sorted ?M'" using IH by blast
    have IH2: "lookup ?M' k = newest (map (adv mk) ?rs) k" for k using IH rs' by simp
    obtain j where j: "j < length ?rs" "?rs ! j \<noteq> []" "w = hd (?rs ! j)" "EKey w = mk"
       "\<forall>i<j. \<not> (?rs ! i \<noteq> [] \<and> EKey (hd (?rs ! i)) = mk)"
      using pick_winner_first [OF fm False pw] by auto
    have least: "\<And>r. r \<in> set ?rs \<Longrightarrow> r \<noteq> [] \<Longrightarrow> mk \<le> EKey (hd r)"
      using find_min_least [OF fm False] by blast
    have "keys_sorted (w # ?M')"
      using less.prems least j IH1 IH2 by (rule merge_step_lists(1))
    moreover have "lookup (w # ?M') k = newest ?rs k" for k
      using less.prems least j IH1 IH2 by (rule merge_step_lists(2))
    ultimately show ?thesis using M by simp
  qed
qed

lemma rems_start: "rems sets (replicate (length sets) 0) = sets"
  by (rule nth_equalityI) (simp_all add: rems_def)

lemma kWayMerge_sorted_lookup:
  assumes "\<forall>s\<in>set sets. keys_sorted s"
  shows "keys_sorted (kWayMerge sets)" and "lookup (kWayMerge sets) k = newest sets k"
  using merge_invariant [of sets "replicate (length sets) 0"] assms
  by (simp_all add: rems_start kWayMerge_def)

subsection \<open>\<^verbatim>\<open>Compact\<close>: merge, then drop the tombstones\<close>

text \<open>The entries that \<^verbatim>\<open>Compact\<close> hands to the writer: the merge of the inputs without
  its tombstones (the loop that fills \<^verbatim>\<open>live\<close>).\<close>

definition compact_merge :: "SSTableEntry list list \<Rightarrow> SSTableEntry list" where
  "compact_merge allSets = filter (\<lambda>e. \<not> Tombstone e) (kWayMerge allSets)"

lemma keys_sorted_filter: "keys_sorted es \<Longrightarrow> keys_sorted (filter P es)"
proof (induction es)
  case Nil
  then show ?case by simp
next
  case (Cons e es)
  then show ?case by (auto simp: keys_sorted_Cons)
qed



lemma compact_merge_sorted:
  "\<forall>s\<in>set sets. keys_sorted s \<Longrightarrow> keys_sorted (compact_merge sets)"
  unfolding compact_merge_def by (intro keys_sorted_filter kWayMerge_sorted_lookup(1))



text \<open>The two inputs of the repository's compaction test: the older table A with the keys
  a, b, c and the newer table B with b, a tombstone for c, and d.\<close>

definition table_A :: "SSTableEntry list" where
  "table_A = [\<lparr>EKey = [0x61], EValue = [0x31], Tombstone = False\<rparr>,
              \<lparr>EKey = [0x62], EValue = [0x6f, 0x6c, 0x64], Tombstone = False\<rparr>,
              \<lparr>EKey = [0x63], EValue = [0x31], Tombstone = False\<rparr>]"

definition table_B :: "SSTableEntry list" where
  "table_B = [\<lparr>EKey = [0x62], EValue = [0x6e, 0x65, 0x77], Tombstone = False\<rparr>,
              \<lparr>EKey = [0x63], EValue = [], Tombstone = True\<rparr>,
              \<lparr>EKey = [0x64], EValue = [0x32], Tombstone = False\<rparr>]"

lemma tables_sorted: "keys_sorted table_A" "keys_sorted table_B"
  by (simp_all add: keys_sorted_def table_A_def table_B_def)


text \<open>
  Claim C10. If every input has strictly increasing keys (sorted, at most one entry per
  key), so has the result of \<^verbatim>\<open>kWayMerge\<close>, and so have the entries that \<^verbatim>\<open>Compact\<close>
  hands to the writer.
\<close>

theorem kWayMerge_keys_sorted:
  "\<forall>s\<in>set sets. keys_sorted s \<Longrightarrow>
     keys_sorted (kWayMerge sets) \<and> keys_sorted (compact_merge sets)"
  using kWayMerge_sorted_lookup(1) [of sets] compact_merge_sorted [of sets] by blast

theorem kWayMerge_keys_sorted_witness:
  "keys_sorted table_B \<and> keys_sorted table_A \<and>
   keys_sorted (kWayMerge [table_B, table_A]) \<and> keys_sorted (compact_merge [table_B, table_A])"
proof -
  have s: "\<forall>s\<in>set [table_B, table_A]. keys_sorted s" using tables_sorted by simp
  show ?thesis using kWayMerge_keys_sorted [OF s] tables_sorted by simp
qed

section \<open>SSTable writer and reader (sstable.go, sstable_reader.go)\<close>

text \<open>\<^verbatim>\<open>binary.LittleEndian.PutUint64\<close> and \<^verbatim>\<open>Uint64\<close>.\<close>

definition le64 :: "u64 \<Rightarrow> byte list" where
  "le64 w = [ucast w, ucast (drop_bit 8 w), ucast (drop_bit 16 w), ucast (drop_bit 24 w),
             ucast (drop_bit 32 w), ucast (drop_bit 40 w), ucast (drop_bit 48 w),
             ucast (drop_bit 56 w)]"

definition rd64 :: "byte list \<Rightarrow> u64" where
  "rd64 b = ucast (b ! 0) OR push_bit 8 (ucast (b ! 1)) OR push_bit 16 (ucast (b ! 2))
              OR push_bit 24 (ucast (b ! 3)) OR push_bit 32 (ucast (b ! 4))
              OR push_bit 40 (ucast (b ! 5)) OR push_bit 48 (ucast (b ! 6))
              OR push_bit 56 (ucast (b ! 7))"

definition sstMagic :: u32 where "sstMagic = 0x4C534D54"

definition footerSize :: nat where "footerSize = 28"

text \<open>
  \<^verbatim>\<open>indexEntry\<close>: a key and the offset of its data entry. Offsets are \<^verbatim>\<open>int64\<close> in
  the source; they are integers here, written to the file as the 64-bit word
  \<^verbatim>\<open>uint64(idx.Offset)\<close> and read back as \<^verbatim>\<open>int64(...)\<close>, the signed value of the word.
\<close>

record indexEntry =
  IKey :: "byte list"
  Offset :: int

subsection \<open>\<^verbatim>\<open>WriteSSTable\<close>\<close>

text \<open>The bytes of one data entry and of one index entry, as the two loops build them.\<close>

definition data_entry :: "SSTableEntry \<Rightarrow> byte list" where
  "data_entry e =
     le32 (of_nat (length (EKey e))) @ EKey e
       @ le32 (of_nat (length (EValue e))) @ EValue e
       @ [if Tombstone e then 1 else 0]"

definition index_entry :: "indexEntry \<Rightarrow> byte list" where
  "index_entry idx =
     le32 (of_nat (length (IKey idx))) @ IKey idx @ le64 (word_of_int (Offset idx))"

text \<open>The first loop: the data section, the index collected on the way, and the offset
  after the last entry; \<open>offset\<close> is where the next entry starts.\<close>

fun write_data :: "SSTableEntry list \<Rightarrow> int \<Rightarrow> byte list \<times> indexEntry list \<times> int" where
  "write_data [] offset = ([], [], offset)"
| "write_data (e # es) offset =
     (case write_data es (offset + int (length (data_entry e))) of
        (bytes, idx, end_offset) \<Rightarrow>
          (data_entry e @ bytes, \<lparr>IKey = EKey e, Offset = offset\<rparr> # idx, end_offset))"

text \<open>
  \<^verbatim>\<open>WriteSSTable\<close> returns the content of the file it creates (the file system is taken
  to work: create, write and sync succeed). A panic of \<^verbatim>\<open>bloom.Add\<close> ends it.
\<close>

definition WriteSSTable :: "sizing \<Rightarrow> SSTableEntry list \<Rightarrow> error + byte list" where
  "WriteSSTable fsize entries =
     (case Add_all (NewBloomFilter fsize (int (length entries)) (1 / 100)) (map EKey entries) of
        None \<Rightarrow> Inl Panic
      | Some bloom \<Rightarrow>
          (case write_data entries 0 of
             (dataBytes, index, indexOffset) \<Rightarrow>
               let indexBytes = concat (map index_entry index);
                   bloomBytes = Serialize bloom;
                   bloomOffset = indexOffset + int (length indexBytes);
                   footer = le64 (word_of_int indexOffset) @ le32 (of_nat (length index))
                            @ le64 (word_of_int bloomOffset) @ le32 (of_nat (length bloomBytes))
                            @ le32 sstMagic
               in Inr (dataBytes @ indexBytes @ bloomBytes @ footer)))"

subsection \<open>\<^verbatim>\<open>OpenSSTable\<close> and the reader\<close>

text \<open>
  \<^verbatim>\<open>os.File.ReadAt\<close> of \<open>n\<close> bytes at offset \<open>off\<close> of a file with the given content:
  an error (\<open>None\<close>) for a negative offset and when fewer than \<open>n\<close> bytes are there; a
  read of no bytes succeeds.
\<close>

definition ReadAt :: "byte list \<Rightarrow> int \<Rightarrow> nat \<Rightarrow> byte list option" where
  "ReadAt f off n =
     (if off < 0 then None
      else if n = 0 then Some []
      else if nat off + n \<le> length f then Some (take n (drop (nat off) f))
      else None)"

text \<open>The reader: the content of the open file (\<^verbatim>\<open>file\<close> in the source), the index and
  the filter.\<close>

record SSTableReader =
  sfile :: "byte list"
  index :: "indexEntry list"
  bloom :: BloomFilter

text \<open>The loop of \<^verbatim>\<open>OpenSSTable\<close> that decodes \<open>n\<close> more index entries from position
  \<open>pos\<close>; \<open>None\<close> is the panic of a slice expression out of range.\<close>

fun parse_index :: "byte list \<Rightarrow> nat \<Rightarrow> nat \<Rightarrow> indexEntry list option" where
  "parse_index indexData pos 0 = Some []"
| "parse_index indexData pos (Suc n) =
     (case slice indexData pos (pos + 4) of
        None \<Rightarrow> None
      | Some lenBytes \<Rightarrow>
          let keyLen = rd32 lenBytes; pos1 = pos + 4 in
          (case slice indexData pos1 (pos1 + unat keyLen) of
             None \<Rightarrow> None
           | Some key \<Rightarrow>
               let pos2 = pos1 + unat keyLen in
               (case slice indexData pos2 (pos2 + 8) of
                  None \<Rightarrow> None
                | Some offBytes \<Rightarrow>
                    (case parse_index indexData (pos2 + 8) n of
                       None \<Rightarrow> None
                     | Some rest \<Rightarrow> Some (\<lparr>IKey = key, Offset = sint (rd64 offBytes)\<rparr> # rest)))))"

definition OpenSSTable :: "sizing \<Rightarrow> byte list \<Rightarrow> error + SSTableReader" where
  "OpenSSTable fsize f =
     (if length f < footerSize then Inl ErrSSTableTooSmall
      else case ReadAt f (int (length f) - int footerSize) footerSize of
             None \<Rightarrow> Inl ErrSSTableRead
           | Some footer \<Rightarrow>
               if rd32 (drop 24 footer) \<noteq> sstMagic then Inl ErrSSTableBadMagic
               else
                 let indexOffset = sint (rd64 (take 8 footer));
                     indexCount = rd32 (take 4 (drop 8 footer));
                     bloomOffset = sint (rd64 (take 8 (drop 12 footer)));
                     bloomSize = rd32 (take 4 (drop 20 footer))
                 in (case ReadAt f bloomOffset (unat bloomSize) of
                       None \<Rightarrow> Inl ErrSSTableRead
                     | Some bloomData \<Rightarrow>
                         if bloomOffset - indexOffset < 0 then Inl Panic
                         else (case ReadAt f indexOffset (nat (bloomOffset - indexOffset)) of
                                 None \<Rightarrow> Inl ErrSSTableRead
                               | Some indexData \<Rightarrow>
                                   (case parse_index indexData 0 (unat indexCount) of
                                      None \<Rightarrow> Inl Panic
                                    | Some idx \<Rightarrow>
                                        Inr \<lparr>sfile = f, index = idx,
                                             bloom = DeserializeBloom fsize bloomData\<rparr>))))"

text \<open>
  \<^verbatim>\<open>readEntry\<close> returns \<^verbatim>\<open>(value, tombstone, found)\<close>, with \<^verbatim>\<open>(nil, false, false)\<close>
  on a read error. \<^verbatim>\<open>make([]byte, valLen+1)\<close> is sized in uint32; when it wraps to 0
  the slice \<^verbatim>\<open>data[:valLen]\<close> panics.
\<close>

definition readEntry :: "byte list \<Rightarrow> int \<Rightarrow> error + byte list \<times> bool \<times> bool" where
  "readEntry f offset =
     (case ReadAt f offset 4 of
        None \<Rightarrow> Inr ([], False, False)
      | Some buf4 \<Rightarrow>
          let keyLen = rd32 buf4;
              valLenOff = offset + 4 + int (unat keyLen)
          in (case ReadAt f valLenOff 4 of
                None \<Rightarrow> Inr ([], False, False)
              | Some buf4' \<Rightarrow>
                  let valLen = rd32 buf4';
                      valOff = valLenOff + 4
                  in (case ReadAt f valOff (unat (valLen + 1)) of
                        None \<Rightarrow> Inr ([], False, False)
                      | Some data \<Rightarrow>
                          if unat valLen < length data
                          then Inr (take (unat valLen) data, data ! unat valLen = 1, True)
                          else Inl Panic)))"

text \<open>\<^verbatim>\<open>sort.Search\<close>: the binary search of the Go library, on \<open>[0, n)\<close>.\<close>

function Search_loop :: "(nat \<Rightarrow> bool) \<Rightarrow> nat \<Rightarrow> nat \<Rightarrow> nat" where
  "Search_loop f i j =
     (if i < j
      then let h = (i + j) div 2
           in if \<not> f h then Search_loop f (h + 1) j else Search_loop f i h
      else i)"
  by pat_completeness auto
termination
  by (relation "measure (\<lambda>(f, i, j). j - i)") auto

declare Search_loop.simps [simp del]

definition Search :: "nat \<Rightarrow> (nat \<Rightarrow> bool) \<Rightarrow> nat" where
  "Search n f = Search_loop f 0 n"

text \<open>\<^verbatim>\<open>SSTableReader.Get\<close>, with the result \<^verbatim>\<open>(value, tombstone, found)\<close>.\<close>

definition SSTable_Get :: "SSTableReader \<Rightarrow> byte list \<Rightarrow> error + byte list \<times> bool \<times> bool" where
  "SSTable_Get r k =
     (case MayContain (bloom r) k of
        None \<Rightarrow> Inl Panic
      | Some False \<Rightarrow> Inr ([], False, False)
      | Some True \<Rightarrow>
          let idx = Search (length (index r)) (\<lambda>i. IKey (index r ! i) \<ge> k)
          in if idx \<ge> length (index r) \<or> IKey (index r ! idx) \<noteq> k
             then Inr ([], False, False)
             else readEntry (sfile r) (Offset (index r ! idx)))"

text \<open>\<^verbatim>\<open>ReadAll\<close>: the loop over the index; an entry that cannot be read is skipped.\<close>

fun ReadAll_loop :: "byte list \<Rightarrow> indexEntry list \<Rightarrow> error + SSTableEntry list" where
  "ReadAll_loop f [] = Inr []"
| "ReadAll_loop f (idx # rest) =
     (case readEntry f (Offset idx) of
        Inl err \<Rightarrow> Inl err
      | Inr (val, tomb, ok) \<Rightarrow>
          (case ReadAll_loop f rest of
             Inl err \<Rightarrow> Inl err
           | Inr entries \<Rightarrow>
               if \<not> ok then Inr entries
               else Inr (\<lparr>EKey = IKey idx, EValue = val, Tombstone = tomb\<rparr> # entries)))"

definition ReadAll :: "SSTableReader \<Rightarrow> error + SSTableEntry list" where
  "ReadAll r = ReadAll_loop (sfile r) (index r)"

text \<open>
  \<^verbatim>\<open>Compact\<close> of compaction.go: read every input, merge, drop the tombstones, write.
  It returns the content of the output file.
\<close>

fun read_all_sets :: "SSTableReader list \<Rightarrow> error + SSTableEntry list list" where
  "read_all_sets [] = Inr []"
| "read_all_sets (r # rs) =
     (case ReadAll r of
        Inl err \<Rightarrow> Inl err
      | Inr s \<Rightarrow> (case read_all_sets rs of Inl err \<Rightarrow> Inl err | Inr ss \<Rightarrow> Inr (s # ss)))"

definition Compact :: "sizing \<Rightarrow> SSTableReader list \<Rightarrow> error + byte list" where
  "Compact fsize readers =
     (case read_all_sets readers of
        Inl err \<Rightarrow> Inl err
      | Inr allSets \<Rightarrow> WriteSSTable fsize (compact_merge allSets))"

section \<open>Memtable (memtable.go)\<close>

text \<open>
  A value held by the memtable is a Go slice that may be nil, and \<^verbatim>\<open>DB.Get\<close> tests it
  against nil: \<open>None\<close> is the nil slice, \<open>Some bs\<close> a non-nil slice with the bytes
  \<open>bs\<close> (so \<open>Some []\<close> is \<^verbatim>\<open>[]byte{}\<close>). The field \<^verbatim>\<open>value\<close> is \<open>mvalue\<close>
  here and \<^verbatim>\<open>size\<close> is \<open>msize\<close>, as \<open>value\<close> and \<open>size\<close> are taken in Isabelle.
\<close>

type_synonym bytes = "byte list option"

definition blen :: "bytes \<Rightarrow> nat" where
  "blen v = (case v of None \<Rightarrow> 0 | Some bs \<Rightarrow> length bs)"

definition bytes_of :: "bytes \<Rightarrow> byte list" where
  "bytes_of v = (case v of None \<Rightarrow> [] | Some bs \<Rightarrow> bs)"

record memEntry =
  key :: "byte list"
  mvalue :: bytes
  tombstone :: bool

record Memtable =
  entries :: "memEntry list"
  msize :: int
  threshold :: int

definition DefaultMemtableSize :: int where
  "DefaultMemtableSize = 4 * 1024 * 1024"

definition NewMemtable :: "int \<Rightarrow> Memtable" where
  "NewMemtable t = \<lparr>entries = [], msize = 0, threshold = t\<rparr>"

definition search :: "Memtable \<Rightarrow> byte list \<Rightarrow> nat" where
  "search m k = Search (length (entries m)) (\<lambda>i. key (entries m ! i) \<ge> k)"

text \<open>Growing the slice by one, shifting the tail and storing the entry at \<open>idx\<close>.\<close>

definition insert_at :: "nat \<Rightarrow> 'a \<Rightarrow> 'a list \<Rightarrow> 'a list" where
  "insert_at idx x xs = take idx xs @ [x] @ drop idx xs"

definition Memtable_Put :: "Memtable \<Rightarrow> byte list \<Rightarrow> bytes \<Rightarrow> Memtable" where
  "Memtable_Put m k v =
     (let idx = search m k in
      if idx < length (entries m) \<and> key (entries m ! idx) = k
      then m\<lparr>entries := (entries m)[idx := (entries m ! idx)\<lparr>mvalue := v, tombstone := False\<rparr>],
             msize := msize m - int (blen (mvalue (entries m ! idx))) + int (blen v)\<rparr>
      else m\<lparr>entries := insert_at idx \<lparr>key = k, mvalue = v, tombstone = False\<rparr> (entries m),
             msize := msize m + (int (length k) + int (blen v) + 1)\<rparr>)"

text \<open>\<^verbatim>\<open>Memtable.Get\<close> returns \<^verbatim>\<open>(value, found)\<close>; for a tombstone it returns
  \<^verbatim>\<open>(nil, true)\<close>.\<close>

definition Memtable_Get :: "Memtable \<Rightarrow> byte list \<Rightarrow> bytes \<times> bool" where
  "Memtable_Get m k =
     (let idx = search m k in
      if idx < length (entries m) \<and> key (entries m ! idx) = k
      then (if tombstone (entries m ! idx) then (None, True)
            else (mvalue (entries m ! idx), True))
      else (None, False))"

definition Memtable_Delete :: "Memtable \<Rightarrow> byte list \<Rightarrow> Memtable" where
  "Memtable_Delete m k =
     (let idx = search m k in
      if idx < length (entries m) \<and> key (entries m ! idx) = k
      then m\<lparr>entries := (entries m)[idx := (entries m ! idx)\<lparr>mvalue := None, tombstone := True\<rparr>],
             msize := msize m - int (blen (mvalue (entries m ! idx)))\<rparr>
      else m\<lparr>entries := insert_at idx \<lparr>key = k, mvalue = None, tombstone = True\<rparr> (entries m),
             msize := msize m + (int (length k) + 1)\<rparr>)"

definition IsFull :: "Memtable \<Rightarrow> bool" where
  "IsFull m \<longleftrightarrow> msize m \<ge> threshold m"

definition Len :: "Memtable \<Rightarrow> nat" where
  "Len m = length (entries m)"

section \<open>The engine (db.go, db_internal.go)\<close>

text \<open>
  The directory of the engine. It holds the log \<^verbatim>\<open>wal\<close>, if there is one, and the
  tables. The engine names a table \<^verbatim>\<open>{level}-{sequence:06d}.sst\<close> and reads the level
  and the sequence number back from the name; a table's name is that pair here (printing
  a number and parsing it back is taken to give the number). The list is the directory
  in the order of \<^verbatim>\<open>os.ReadDir\<close>.
\<close>

type_synonym sst_name = "nat \<times> int"

record Dir =
  sst_files :: "(sst_name \<times> byte list) list"
  wal_file :: "byte list option"

definition empty_dir :: Dir where
  "empty_dir = \<lparr>sst_files = [], wal_file = None\<rparr>"

text \<open>\<^verbatim>\<open>os.Create\<close> of a table (an existing file of that name is replaced) and
  \<^verbatim>\<open>os.Remove\<close> of a list of tables.\<close>

definition create_sst :: "sst_name \<Rightarrow> byte list \<Rightarrow> Dir \<Rightarrow> Dir" where
  "create_sst name f d =
     d\<lparr>sst_files := filter (\<lambda>(n, c). n \<noteq> name) (sst_files d) @ [(name, f)]\<rparr>"

definition remove_ssts :: "sst_name list \<Rightarrow> Dir \<Rightarrow> Dir" where
  "remove_ssts names d = d\<lparr>sst_files := filter (\<lambda>(n, c). n \<notin> set names) (sst_files d)\<rparr>"

text \<open>
  The state of an open engine: the struct \<^verbatim>\<open>DB\<close>, with the directory in place of its
  path and the content of the log in the directory in place of the open handle.
\<close>

record DB =
  dir :: Dir
  mem :: Memtable
  sstables :: "SSTableReader list"
  nextSeq :: int

text \<open>\<^verbatim>\<open>sort.Slice\<close> by descending sequence number. The engine never gives two tables
  the same number, so the order does not depend on the sorting algorithm.\<close>

definition newest_first :: "(sst_name \<times> byte list) list \<Rightarrow> (sst_name \<times> byte list) list" where
  "newest_first ssts = sort_key (\<lambda>(n, c). - snd n) ssts"

fun open_all :: "sizing \<Rightarrow> byte list list \<Rightarrow> error + SSTableReader list" where
  "open_all fsize [] = Inr []"
| "open_all fsize (f # fs) =
     (case OpenSSTable fsize f of
        Inl err \<Rightarrow> Inl err
      | Inr r \<Rightarrow> (case open_all fsize fs of Inl err \<Rightarrow> Inl err | Inr rs \<Rightarrow> Inr (r # rs)))"

definition loadSSTables :: "sizing \<Rightarrow> DB \<Rightarrow> error + DB" where
  "loadSSTables fsize db =
     (let ssts = sst_files (dir db);
          next = foldl (\<lambda>n (name, c). if snd name \<ge> n then snd name + 1 else n) (nextSeq db) ssts
      in case open_all fsize (map snd (newest_first ssts)) of
           Inl err \<Rightarrow> Inl err
         | Inr readers \<Rightarrow> Inr (db\<lparr>sstables := sstables db @ readers, nextSeq := next\<rparr>))"

definition level0SSTables :: "DB \<Rightarrow> sst_name list" where
  "level0SSTables db = filter (\<lambda>n. fst n = 0) (map fst (sst_files (dir db)))"

definition allSSTables :: "DB \<Rightarrow> (sst_name \<times> byte list) list" where
  "allSSTables db = newest_first (sst_files (dir db))"

definition CompactionThreshold :: nat where
  "CompactionThreshold = 4"

definition maybeCompact :: "sizing \<Rightarrow> DB \<Rightarrow> error + DB" where
  "maybeCompact fsize db =
     (if length (level0SSTables db) < CompactionThreshold then Inr db
      else
        let allPaths = allSSTables db in
        case open_all fsize (map snd allPaths) of
          Inl err \<Rightarrow> Inl err
        | Inr readers \<Rightarrow>
            (case Compact fsize readers of
               Inl err \<Rightarrow> Inl err
             | Inr out \<Rightarrow>
                 loadSSTables fsize
                   (db\<lparr>dir := remove_ssts (map fst allPaths) (create_sst (1, nextSeq db) out (dir db)),
                       nextSeq := nextSeq db + 1,
                       sstables := []\<rparr>)))"

definition flush :: "sizing \<Rightarrow> DB \<Rightarrow> error + DB" where
  "flush fsize db =
     (let sstEntries =
            map (\<lambda>e. \<lparr>EKey = key e, EValue = bytes_of (mvalue e), Tombstone = tombstone e\<rparr>)
              (entries (mem db))
      in case WriteSSTable fsize sstEntries of
           Inl err \<Rightarrow> Inl err
         | Inr f \<Rightarrow>
             (case OpenSSTable fsize f of
                Inl err \<Rightarrow> Inl err
              | Inr reader \<Rightarrow>
                  maybeCompact fsize
                    (db\<lparr>dir := (create_sst (0, nextSeq db) f (dir db))\<lparr>wal_file := Some []\<rparr>,
                        sstables := reader # sstables db,
                        nextSeq := nextSeq db + 1,
                        mem := NewMemtable DefaultMemtableSize\<rparr>)))"

text \<open>The log of the open engine, and \<^verbatim>\<open>db.wal.Append\<close>.\<close>

definition wal_bytes :: "DB \<Rightarrow> byte list" where
  "wal_bytes db = (case wal_file (dir db) of None \<Rightarrow> [] | Some w \<Rightarrow> w)"

definition wal_append :: "DB \<Rightarrow> WALEntry \<Rightarrow> DB" where
  "wal_append db e = db\<lparr>dir := (dir db)\<lparr>wal_file := Some (Append (wal_bytes db) e)\<rparr>\<rparr>"

text \<open>The loop of \<^verbatim>\<open>Open\<close> that applies the replayed entries; a replayed value is never
  nil (\<^verbatim>\<open>decodePayload\<close> allocates it). An entry that is neither a put nor a delete is
  passed over.\<close>

fun apply_entries :: "Memtable \<Rightarrow> WALEntry list \<Rightarrow> Memtable" where
  "apply_entries m [] = m"
| "apply_entries m (e # es) =
     apply_entries
       (if Op e = OpPut then Memtable_Put m (Key e) (Some (Value e))
        else if Op e = OpDelete then Memtable_Delete m (Key e)
        else m) es"

definition Open :: "sizing \<Rightarrow> Dir \<Rightarrow> error + DB" where
  "Open fsize d =
     (case loadSSTables fsize
             \<lparr>dir = d, mem = NewMemtable DefaultMemtableSize, sstables = [], nextSeq = 1\<rparr> of
        Inl err \<Rightarrow> Inl err
      | Inr db \<Rightarrow>
          (case Replay (wal_file d) of
             Inl err \<Rightarrow> Inl err
           | Inr es \<Rightarrow>
               Inr (db\<lparr>mem := apply_entries (mem db) es,
                       dir := (dir db)\<lparr>wal_file := Some (wal_bytes db)\<rparr>\<rparr>)))"

definition Put :: "sizing \<Rightarrow> DB \<Rightarrow> byte list \<Rightarrow> bytes \<Rightarrow> error + DB" where
  "Put fsize db k v =
     (let db1 = wal_append db \<lparr>Op = OpPut, Key = k, Value = bytes_of v\<rparr>;
          db2 = db1\<lparr>mem := Memtable_Put (mem db1) k v\<rparr>
      in if IsFull (mem db2) then flush fsize db2 else Inr db2)"

definition Delete :: "sizing \<Rightarrow> DB \<Rightarrow> byte list \<Rightarrow> error + DB" where
  "Delete fsize db k =
     (let db1 = wal_append db \<lparr>Op = OpDelete, Key = k, Value = []\<rparr>;
          db2 = db1\<lparr>mem := Memtable_Delete (mem db1) k\<rparr>
      in if IsFull (mem db2) then flush fsize db2 else Inr db2)"

text \<open>The loop of \<^verbatim>\<open>Get\<close> over the tables, newest first.\<close>

fun Get_sstables :: "SSTableReader list \<Rightarrow> byte list \<Rightarrow> error + byte list" where
  "Get_sstables [] k = Inl ErrKeyNotFound"
| "Get_sstables (sst # rest) k =
     (case SSTable_Get sst k of
        Inl err \<Rightarrow> Inl err
      | Inr (val, tomb, found) \<Rightarrow>
          if found then (if tomb then Inl ErrKeyNotFound else Inr val)
          else Get_sstables rest k)"

definition Get :: "DB \<Rightarrow> byte list \<Rightarrow> error + byte list" where
  "Get db k =
     (case Memtable_Get (mem db) k of
        (val, True) \<Rightarrow> (case val of None \<Rightarrow> Inl ErrKeyNotFound | Some bs \<Rightarrow> Inr bs)
      | (val, False) \<Rightarrow> Get_sstables (sstables db) k)"

text \<open>\<^verbatim>\<open>Close\<close> flushes a memtable that is not empty; the handles it closes hold no
  state of the model.\<close>

definition Close :: "sizing \<Rightarrow> DB \<Rightarrow> error + DB" where
  "Close fsize db = (if Len (mem db) > 0 then flush fsize db else Inr db)"

section \<open>Runs of the engine\<close>

text \<open>
  A sequence of operations on an open engine; it stops at the first operation that
  returns an error. \<open>get_after\<close> opens an engine on an empty directory, runs the
  operations and looks a key up. \<open>get_after_crash\<close> does the same, but the process
  ends after the last operation has returned and the lookup is made by an engine reopened
  on the directory as the first one left it.
\<close>

datatype op = PutOp "byte list" bytes | DeleteOp "byte list"

fun run :: "sizing \<Rightarrow> DB \<Rightarrow> op list \<Rightarrow> error + DB" where
  "run fsize db [] = Inr db"
| "run fsize db (PutOp k v # ops) =
     (case Put fsize db k v of Inl err \<Rightarrow> Inl err | Inr db' \<Rightarrow> run fsize db' ops)"
| "run fsize db (DeleteOp k # ops) =
     (case Delete fsize db k of Inl err \<Rightarrow> Inl err | Inr db' \<Rightarrow> run fsize db' ops)"

definition get_after :: "sizing \<Rightarrow> op list \<Rightarrow> byte list \<Rightarrow> error + byte list" where
  "get_after fsize ops k =
     (case Open fsize empty_dir of
        Inl err \<Rightarrow> Inl err
      | Inr db \<Rightarrow> (case run fsize db ops of Inl err \<Rightarrow> Inl err | Inr db' \<Rightarrow> Get db' k))"

definition get_after_crash :: "sizing \<Rightarrow> op list \<Rightarrow> byte list \<Rightarrow> error + byte list" where
  "get_after_crash fsize ops k =
     (case Open fsize empty_dir of
        Inl err \<Rightarrow> Inl err
      | Inr db \<Rightarrow>
          (case run fsize db ops of
             Inl err \<Rightarrow> Inl err
           | Inr db' \<Rightarrow>
               (case Open fsize (dir db') of Inl err \<Rightarrow> Inl err | Inr db'' \<Rightarrow> Get db'' k)))"

text \<open>The engine that \<^verbatim>\<open>Open\<close> returns on an empty directory.\<close>

definition fresh_db :: DB where
  "fresh_db = \<lparr>dir = \<lparr>sst_files = [], wal_file = Some []\<rparr>,
               mem = NewMemtable DefaultMemtableSize, sstables = [], nextSeq = 1\<rparr>"

lemma Open_empty_dir: "Open fsize empty_dir = Inr fresh_db"
  by (simp add: Open_def loadSSTables_def empty_dir_def newest_first_def Replay_def fresh_db_def
      wal_bytes_def)

lemma Search_0: "Search 0 f = 0"
  by (simp add: Search_def Search_loop.simps)

lemma Search_1: "Search (Suc 0) f = (if f 0 then 0 else 1)"
  by (simp add: Search_def Search_loop.simps [of f 0 "Suc 0"] Search_loop.simps [of f 0 0]
      Search_loop.simps [of f "Suc 0" "Suc 0"])

lemma Replay_one: "wal_fits e \<Longrightarrow> Replay (Some (Append [] e)) = Inr [e]"
  using Replay_loop_records [of "[e]" "[]" "[]"]
  by (simp add: Replay_def Replay_loop_short)

lemma Replay_two:
  "wal_fits e1 \<Longrightarrow> wal_fits e2 \<Longrightarrow> Replay (Some (Append (Append [] e1) e2)) = Inr [e1, e2]"
  using Replay_loop_records [of "[e1, e2]" "[]" "[]"]
  by (simp add: Replay_def Replay_loop_short)


lemma Open_no_tables:
  "sst_files d = [] \<Longrightarrow> Replay (wal_file d) = Inr es \<Longrightarrow>
     Open fsize d =
       Inr \<lparr>dir = d\<lparr>wal_file := Some (case wal_file d of None \<Rightarrow> [] | Some w \<Rightarrow> w)\<rparr>,
            mem = apply_entries (NewMemtable DefaultMemtableSize) es, sstables = [], nextSeq = 1\<rparr>"
  by (simp add: Open_def loadSSTables_def newest_first_def wal_bytes_def)

lemmas mem_eval = Memtable_Put_def Memtable_Get_def Memtable_Delete_def NewMemtable_def search_def
  Search_0 Search_1 insert_at_def IsFull_def DefaultMemtableSize_def blen_def bytes_of_def

subsection \<open>A put of the nil slice\<close>

text \<open>The engine after \<^verbatim>\<open>db.Put("k", nil)\<close> on a fresh engine: the log holds the record
  of the put, the memtable the entry with a nil value and no tombstone flag.\<close>

definition nil_put_db :: DB where
  "nil_put_db =
     \<lparr>dir = \<lparr>sst_files = [],
              wal_file = Some (Append [] \<lparr>Op = OpPut, Key = [0x6b], Value = []\<rparr>)\<rparr>,
      mem = \<lparr>entries = [\<lparr>key = [0x6b], mvalue = None, tombstone = False\<rparr>], msize = 2,
             threshold = DefaultMemtableSize\<rparr>,
      sstables = [], nextSeq = 1\<rparr>"

lemma Put_nil: "Put fsize fresh_db [0x6b] None = Inr nil_put_db"
  by (simp add: Put_def fresh_db_def nil_put_db_def wal_append_def wal_bytes_def mem_eval)

lemma Get_nil_put: "Get nil_put_db [0x6b] = Inl ErrKeyNotFound"
  by (simp add: Get_def nil_put_db_def mem_eval)

lemma Open_nil_put:
  "Open fsize (dir nil_put_db) =
     Inr (nil_put_db\<lparr>mem := \<lparr>entries = [\<lparr>key = [0x6b], mvalue = Some [], tombstone = False\<rparr>],
                              msize = 2, threshold = DefaultMemtableSize\<rparr>\<rparr>)"
proof -
  have "Replay (wal_file (dir nil_put_db)) = Inr [\<lparr>Op = OpPut, Key = [0x6b], Value = []\<rparr>]"
    by (simp add: nil_put_db_def Replay_one wal_fits_def)
  then show ?thesis
    using Open_no_tables [of "dir nil_put_db" _ fsize]
    by (simp add: nil_put_db_def mem_eval)
qed

text \<open>
  Claim C9 is what the code should do and does not, when the empty value is the nil slice.
  \<^verbatim>\<open>Memtable.Get\<close> hands back the stored value, and \<^verbatim>\<open>DB.Get\<close> takes a nil value
  for a tombstone: after \<^verbatim>\<open>db.Put("k", nil)\<close> on a fresh engine,
  \<^verbatim>\<open>db.Get("k")\<close> returns \<^verbatim>\<open>ErrKeyNotFound\<close>, and the memtable lookup gives for the
  put key the very result it gives for a deleted key. With the non-nil empty slice
  \<^verbatim>\<open>[]byte{}\<close> the same put reads back as the empty value.
\<close>

theorem get_after_nil_put:
  "get_after sizing_p01 [PutOp [0x6b] None] [0x6b] = Inl ErrKeyNotFound \<and>
   Memtable_Get (Memtable_Put (NewMemtable DefaultMemtableSize) [0x6b] None) [0x6b] = (None, True) \<and>
   Memtable_Get (Memtable_Delete (NewMemtable DefaultMemtableSize) [0x6b]) [0x6b] = (None, True) \<and>
   get_after sizing_p01 [PutOp [0x6b] (Some [])] [0x6b] = Inr []"
proof -
  have a: "get_after sizing_p01 [PutOp [0x6b] None] [0x6b] = Inl ErrKeyNotFound"
    by (simp add: get_after_def Open_empty_dir Put_nil Get_nil_put)
  have b: "Memtable_Get (Memtable_Put (NewMemtable DefaultMemtableSize) [0x6b] None) [0x6b]
             = (None, True)"
    by (simp add: mem_eval)
  have c: "Memtable_Get (Memtable_Delete (NewMemtable DefaultMemtableSize) [0x6b]) [0x6b]
             = (None, True)"
    by (simp add: mem_eval)
  have "Put sizing_p01 fresh_db [0x6b] (Some []) =
          Inr (nil_put_db\<lparr>mem := \<lparr>entries = [\<lparr>key = [0x6b], mvalue = Some [], tombstone = False\<rparr>],
                                   msize = 2, threshold = DefaultMemtableSize\<rparr>\<rparr>)"
    by (simp add: Put_def fresh_db_def nil_put_db_def wal_append_def wal_bytes_def mem_eval)
  then have d: "get_after sizing_p01 [PutOp [0x6b] (Some [])] [0x6b] = Inr []"
    by (simp add: get_after_def Open_empty_dir Get_def mem_eval)
  show ?thesis using a b c d by simp
qed

text \<open>The engine after \<^verbatim>\<open>db.Put("k", []byte("v"))\<close> and \<^verbatim>\<open>db.Put("k", nil)\<close> on a
  fresh engine.\<close>

definition overwrite_nil_db :: DB where
  "overwrite_nil_db =
     \<lparr>dir = \<lparr>sst_files = [],
              wal_file = Some (Append (Append [] \<lparr>Op = OpPut, Key = [0x6b], Value = [0x76]\<rparr>)
                                 \<lparr>Op = OpPut, Key = [0x6b], Value = []\<rparr>)\<rparr>,
      mem = \<lparr>entries = [\<lparr>key = [0x6b], mvalue = None, tombstone = False\<rparr>], msize = 2,
             threshold = DefaultMemtableSize\<rparr>,
      sstables = [], nextSeq = 1\<rparr>"

lemma run_overwrite_nil:
  "run fsize fresh_db [PutOp [0x6b] (Some [0x76]), PutOp [0x6b] None] = Inr overwrite_nil_db"
proof -
  let ?db1 = "\<lparr>dir = \<lparr>sst_files = [],
              wal_file = Some (Append [] \<lparr>Op = OpPut, Key = [0x6b], Value = [0x76]\<rparr>)\<rparr>,
      mem = \<lparr>entries = [\<lparr>key = [0x6b], mvalue = Some [0x76], tombstone = False\<rparr>], msize = 3,
             threshold = DefaultMemtableSize\<rparr>,
      sstables = [], nextSeq = 1\<rparr>"
  have a: "Put fsize fresh_db [0x6b] (Some [0x76]) = Inr ?db1"
    by (simp add: Put_def fresh_db_def wal_append_def wal_bytes_def mem_eval)
  have b: "Put fsize ?db1 [0x6b] None = Inr overwrite_nil_db"
    by (simp add: Put_def overwrite_nil_db_def wal_append_def wal_bytes_def mem_eval)
  show ?thesis by (simp add: a b)
qed

lemma Open_overwrite_nil:
  "Open fsize (dir overwrite_nil_db) =
     Inr (overwrite_nil_db\<lparr>mem := \<lparr>entries = [\<lparr>key = [0x6b], mvalue = Some [], tombstone = False\<rparr>],
                                    msize = 2, threshold = DefaultMemtableSize\<rparr>\<rparr>)"
proof -
  have "Replay (wal_file (dir overwrite_nil_db)) =
          Inr [\<lparr>Op = OpPut, Key = [0x6b], Value = [0x76]\<rparr>, \<lparr>Op = OpPut, Key = [0x6b], Value = []\<rparr>]"
    by (simp add: overwrite_nil_db_def Replay_two wal_fits_def)
  then show ?thesis
    using Open_no_tables [of "dir overwrite_nil_db" _ fsize]
    by (simp add: overwrite_nil_db_def mem_eval)
qed

text \<open>
  Claim C1 fails on the code by the same defect. Run \<^verbatim>\<open>db.Put("k", []byte("v"))\<close> and
  then \<^verbatim>\<open>db.Put("k", nil)\<close> on a fresh engine: the most recent put of "k" wrote the
  empty value, and \<^verbatim>\<open>db.Get("k")\<close> returns \<^verbatim>\<open>ErrKeyNotFound\<close>. The engine itself reads
  the put as a live empty value everywhere else: reopened on the same directory, it
  replays the log and \<^verbatim>\<open>db.Get("k")\<close> returns the empty value.
\<close>

theorem get_after_overwrite_with_nil:
  "get_after sizing_p01 [PutOp [0x6b] (Some [0x76]), PutOp [0x6b] None] [0x6b]
     = Inl ErrKeyNotFound \<and>
   get_after_crash sizing_p01 [PutOp [0x6b] (Some [0x76]), PutOp [0x6b] None] [0x6b] = Inr []"
proof -
  have g: "Get overwrite_nil_db [0x6b] = Inl ErrKeyNotFound"
    by (simp add: Get_def overwrite_nil_db_def mem_eval)
  have a: "get_after sizing_p01 [PutOp [0x6b] (Some [0x76]), PutOp [0x6b] None] [0x6b]
             = Inl ErrKeyNotFound"
    unfolding get_after_def by (simp only: Open_empty_dir run_overwrite_nil sum.case g)
  have b: "get_after_crash sizing_p01 [PutOp [0x6b] (Some [0x76]), PutOp [0x6b] None] [0x6b]
             = Inr []"
    unfolding get_after_crash_def
    by (simp only: Open_empty_dir run_overwrite_nil sum.case Open_overwrite_nil)
       (simp add: Get_def mem_eval)
  show ?thesis using a b by simp
qed

subsection \<open>What the writer writes, the reader reads\<close>

lemma length_le64 [simp]: "length (le64 w) = 8"
  by (simp add: le64_def)

lemma rd64_le64: "rd64 (le64 w) = w"
proof -
  have "rd64 (le64 w) = ucast (ucast w :: byte) OR push_bit 8 (ucast (ucast (drop_bit 8 w) :: byte))
      OR push_bit 16 (ucast (ucast (drop_bit 16 w) :: byte))
      OR push_bit 24 (ucast (ucast (drop_bit 24 w) :: byte))
      OR push_bit 32 (ucast (ucast (drop_bit 32 w) :: byte))
      OR push_bit 40 (ucast (ucast (drop_bit 40 w) :: byte))
      OR push_bit 48 (ucast (ucast (drop_bit 48 w) :: byte))
      OR push_bit 56 (ucast (ucast (drop_bit 56 w) :: byte))"
    by (simp add: rd64_def le64_def)
  also have "\<dots> = w"
  proof (rule bit_word_eqI)
    fix n assume "n < LENGTH(64)"
    then have n: "n < 64" by simp
    consider "n < 8" | "8 \<le> n" "n < 16" | "16 \<le> n" "n < 24" | "24 \<le> n" "n < 32"
      | "32 \<le> n" "n < 40" | "40 \<le> n" "n < 48" | "48 \<le> n" "n < 56" | "56 \<le> n" "n < 64"
      using n by linarith
    then show "bit (ucast (ucast w :: byte) OR push_bit 8 (ucast (ucast (drop_bit 8 w) :: byte))
      OR push_bit 16 (ucast (ucast (drop_bit 16 w) :: byte))
      OR push_bit 24 (ucast (ucast (drop_bit 24 w) :: byte))
      OR push_bit 32 (ucast (ucast (drop_bit 32 w) :: byte))
      OR push_bit 40 (ucast (ucast (drop_bit 40 w) :: byte))
      OR push_bit 48 (ucast (ucast (drop_bit 48 w) :: byte))
      OR push_bit 56 (ucast (ucast (drop_bit 56 w) :: byte)) :: u64) n = bit w n"
      by cases (auto simp add: bit_simps)
  qed
  finally show ?thesis .
qed

lemma rd64_append: "length a = 8 \<Longrightarrow> rd64 (a @ b) = rd64 a"
  by (simp add: rd64_def nth_append)

lemma sint_of_int_u64: "0 \<le> x \<Longrightarrow> x < 2 ^ 63 \<Longrightarrow> sint (word_of_int x :: u64) = x"
  by (simp add: sint_sbintrunc' signed_take_bit_int_eq_self)

lemma ReadAt_mid: "ReadAt (a @ b @ c) (int (length a)) (length b) = Some b"
  by (simp add: ReadAt_def)

lemma ReadAt_at:
  "f = a @ b @ c \<Longrightarrow> off = int (length a) \<Longrightarrow> n = length b \<Longrightarrow> ReadAt f off n = Some b"
  by (simp add: ReadAt_mid)

lemma length_data_entry: "length (data_entry e) = 9 + length (EKey e) + length (EValue e)"
  by (simp add: data_entry_def)

lemma length_index_entry: "length (index_entry i) = 12 + length (IKey i)"
  by (simp add: index_entry_def)

lemma readEntry_data_entry:
  assumes k: "length (EKey e) < 2 ^ 32" and v: "length (EValue e) < 2 ^ 32"
  shows "readEntry (pre @ data_entry e @ post) (int (length pre)) =
           (if length (EValue e) + 1 < 2 ^ 32 then Inr (EValue e, Tombstone e, True) else Inl Panic)"
proof -
  let ?lk = "length (EKey e)" and ?lv = "length (EValue e)"
  let ?t = "[if Tombstone e then 1 else 0 :: byte]"
  let ?f = "pre @ data_entry e @ post"
  have r1: "ReadAt ?f (int (length pre)) 4 = Some (le32 (of_nat ?lk))"
    by (rule ReadAt_at [where a = pre and c = "EKey e @ le32 (of_nat ?lv) @ EValue e @ ?t @ post"])
       (simp_all add: data_entry_def)
  have uk: "unat (of_nat ?lk :: u32) = ?lk" using k by (rule unat_of_nat_u32)
  have uv: "unat (of_nat ?lv :: u32) = ?lv" using v by (rule unat_of_nat_u32)
  have r2: "ReadAt ?f (int (length pre) + 4 + int ?lk) 4 = Some (le32 (of_nat ?lv))"
    by (rule ReadAt_at [where a = "pre @ le32 (of_nat ?lk) @ EKey e"
          and c = "EValue e @ ?t @ post"])
       (simp_all add: data_entry_def)
  show ?thesis
  proof (cases "?lv + 1 < 2 ^ 32")
    case True
    have u1: "unat (of_nat ?lv + 1 :: u32) = ?lv + 1"
      using True unat_of_nat_u32 [of "?lv + 1"] by (simp add: add.commute)
    have r3: "ReadAt ?f (int (length pre) + 4 + int ?lk + 4) (?lv + 1) = Some (EValue e @ ?t)"
      by (rule ReadAt_at [where a = "pre @ le32 (of_nat ?lk) @ EKey e @ le32 (of_nat ?lv)"
            and c = post])
         (simp_all add: data_entry_def)
    show ?thesis
      unfolding readEntry_def
      using True by (simp only: r1 option.case Let_def rd32_le32 uk r2 uv u1 r3) (simp add: nth_append)
  next
    case False
    then have "?lv = 2 ^ 32 - 1" using v by simp
    then have "(of_nat ?lv + 1 :: u32) = 0" by simp
    then have u1: "unat (of_nat ?lv + 1 :: u32) = 0" by simp
    have r3: "ReadAt ?f (int (length pre) + 4 + int ?lk + 4) 0 = Some []"
      by (simp add: ReadAt_def)
    show ?thesis
      unfolding readEntry_def
      using False by (simp only: r1 option.case Let_def rd32_le32 uk r2 uv u1 r3) simp
  qed
qed

text \<open>The index that the first loop of \<^verbatim>\<open>WriteSSTable\<close> collects, starting at offset
  \<open>off\<close>.\<close>

fun index_of :: "SSTableEntry list \<Rightarrow> int \<Rightarrow> indexEntry list" where
  "index_of [] off = []"
| "index_of (e # es) off =
     \<lparr>IKey = EKey e, Offset = off\<rparr> # index_of es (off + int (length (data_entry e)))"

lemma write_data_eq:
  "write_data es off =
     (concat (map data_entry es), index_of es off, off + int (length (concat (map data_entry es))))"
  by (induction es arbitrary: off) (simp_all add: add.assoc)

lemma length_index_of [simp]: "length (index_of es off) = length es"
  by (induction es arbitrary: off) simp_all

lemma map_IKey_index_of [simp]: "map IKey (index_of es off) = map EKey es"
  by (induction es arbitrary: off) simp_all

lemma index_of_bounds:
  "i \<in> set (index_of es off) \<Longrightarrow>
     off \<le> Offset i \<and> Offset i \<le> off + int (length (concat (map data_entry es)))
       \<and> IKey i \<in> EKey ` set es"
proof (induction es arbitrary: off)
  case Nil
  then show ?case by simp
next
  case (Cons e es)
  show ?case
  proof (cases "i = \<lparr>IKey = EKey e, Offset = off\<rparr>")
    case True
    then show ?thesis by simp
  next
    case False
    then have "i \<in> set (index_of es (off + int (length (data_entry e))))"
      using Cons.prems by simp
    then show ?thesis using Cons.IH [of "off + int (length (data_entry e))"] by auto
  qed
qed

text \<open>An entry that \<^verbatim>\<open>readEntry\<close> can read back: the lengths of its key and of its value
  with the tombstone byte fit uint32.\<close>

definition entry_fits :: "SSTableEntry \<Rightarrow> bool" where
  "entry_fits e \<longleftrightarrow> length (EKey e) < 2 ^ 32 \<and> length (EValue e) + 1 < 2 ^ 32"

lemma ReadAll_loop_written:
  "\<forall>e\<in>set es. entry_fits e \<Longrightarrow>
     ReadAll_loop (pre @ concat (map data_entry es) @ post) (index_of es (int (length pre))) = Inr es"
proof (induction es arbitrary: pre)
  case Nil
  then show ?case by simp
next
  case (Cons e es)
  have fits: "length (EKey e) < 2 ^ 32" "length (EValue e) < 2 ^ 32" "length (EValue e) + 1 < 2 ^ 32"
    using Cons.prems by (simp_all add: entry_fits_def)
  let ?f = "pre @ concat (map data_entry (e # es)) @ post"
  have f1: "?f = pre @ data_entry e @ (concat (map data_entry es) @ post)" by simp
  have f2: "?f = (pre @ data_entry e) @ concat (map data_entry es) @ post" by simp
  have r: "readEntry ?f (int (length pre)) = Inr (EValue e, Tombstone e, True)"
    unfolding f1 using readEntry_data_entry [OF fits(1,2)] fits(3) by simp
  have "ReadAll_loop ((pre @ data_entry e) @ concat (map data_entry es) @ post)
          (index_of es (int (length (pre @ data_entry e)))) = Inr es"
    using Cons.prems by (intro Cons.IH) simp
  then have rest: "ReadAll_loop ?f (index_of es (int (length pre) + int (length (data_entry e)))) = Inr es"
    unfolding f2 by simp
  show ?case
    by (simp only: index_of.simps ReadAll_loop.simps r rest indexEntry.simps) simp
qed

lemma slice_at:
  "f = a @ b @ c \<Longrightarrow> lo = length a \<Longrightarrow> hi = length a + length b \<Longrightarrow> slice f lo hi = Some b"
  by (simp add: slice_def)

text \<open>An index entry whose key length fits uint32 and whose offset is a non-negative
  \<^verbatim>\<open>int64\<close>.\<close>

definition index_fits :: "indexEntry \<Rightarrow> bool" where
  "index_fits i \<longleftrightarrow> length (IKey i) < 2 ^ 32 \<and> 0 \<le> Offset i \<and> Offset i < 2 ^ 63"

lemma parse_index_written:
  "\<forall>i\<in>set idx. index_fits i \<Longrightarrow>
     parse_index (pre @ concat (map index_entry idx) @ post) (length pre) (length idx) = Some idx"
proof (induction idx arbitrary: pre)
  case Nil
  then show ?case by simp
next
  case (Cons i idx)
  have fits: "length (IKey i) < 2 ^ 32" "0 \<le> Offset i" "Offset i < 2 ^ 63"
    using Cons.prems by (simp_all add: index_fits_def)
  let ?lk = "length (IKey i)"
  let ?o = "le64 (word_of_int (Offset i))"
  let ?rest = "concat (map index_entry idx) @ post"
  let ?f = "pre @ concat (map index_entry (i # idx)) @ post"
  have uk: "unat (of_nat ?lk :: u32) = ?lk" using fits(1) by (rule unat_of_nat_u32)
  have s1: "slice ?f (length pre) (length pre + 4) = Some (le32 (of_nat ?lk))"
    by (rule slice_at [where a = pre and c = "IKey i @ ?o @ ?rest"])
       (simp_all add: index_entry_def)
  have s2: "slice ?f (length pre + 4) (length pre + 4 + ?lk) = Some (IKey i)"
    by (rule slice_at [where a = "pre @ le32 (of_nat ?lk)" and c = "?o @ ?rest"])
       (simp_all add: index_entry_def)
  have s3: "slice ?f (length pre + 4 + ?lk) (length pre + 4 + ?lk + 8) = Some ?o"
    by (rule slice_at [where a = "pre @ le32 (of_nat ?lk) @ IKey i" and c = ?rest])
       (simp_all add: index_entry_def)
  have f2: "?f = (pre @ index_entry i) @ concat (map index_entry idx) @ post" by simp
  have "parse_index ((pre @ index_entry i) @ concat (map index_entry idx) @ post)
          (length (pre @ index_entry i)) (length idx) = Some idx"
    using Cons.prems by (intro Cons.IH) simp
  then have rest: "parse_index ?f (length pre + 4 + ?lk + 8) (length idx) = Some idx"
    unfolding f2 by (simp add: length_index_entry add.commute add.left_commute)
  have off: "sint (rd64 ?o) = Offset i"
    using fits by (simp add: rd64_le64 sint_of_int_u64)
  have "parse_index ?f (length pre) (Suc (length idx)) = Some (\<lparr>IKey = IKey i, Offset = Offset i\<rparr> # idx)"
    by (simp only: parse_index.simps s1 option.case Let_def rd32_le32 uk s2 s3 rest off)
  then show ?case by simp
qed

lemma Deserialize_Serialize: "DeserializeBloom fsize (Serialize bf) = bf"
  by (simp add: DeserializeBloom_def Serialize_def rd32_le32)

lemma Add_fields:
  "Add bf k = Some bf' \<Longrightarrow>
     numBits bf' = numBits bf \<and> numHash bf' = numHash bf \<and> length (bits bf') = length (bits bf)"
  by (auto simp: Add_def split: prod.splits dest: Add_loop_fields)

lemma Add_all_fields:
  "Add_all bf ks = Some bf' \<Longrightarrow>
     numBits bf' = numBits bf \<and> numHash bf' = numHash bf \<and> length (bits bf') = length (bits bf)"
proof (induction ks arbitrary: bf)
  case Nil
  then show ?case by simp
next
  case (Cons k ks)
  from Cons.prems obtain bf1 where a: "Add bf k = Some bf1" and r: "Add_all bf1 ks = Some bf'"
    by (auto split: option.splits)
  show ?case using Add_fields [OF a] Cons.IH [OF r] by simp
qed

lemma length_bits_New: "length (bits (NewBloomFilter fsize n p)) < 2 ^ 29"
proof -
  have "length (bits (NewBloomFilter fsize n p)) = unat ((numBits (NewBloomFilter fsize n p) + 7) div 8)"
    by (auto simp: NewBloomFilter_def Let_def split: prod.splits)
  also have "\<dots> = unat (numBits (NewBloomFilter fsize n p) + 7) div 8" by (simp add: unat_div)
  also have "\<dots> < 2 ^ 29"
    using unsigned_less [of "numBits (NewBloomFilter fsize n p) + 7", where 'a = nat] by simp
  finally show ?thesis .
qed

text \<open>The footer of a table, from the two offsets, the number of index entries and the
  size of the filter.\<close>

definition sst_footer :: "int \<Rightarrow> nat \<Rightarrow> int \<Rightarrow> nat \<Rightarrow> byte list" where
  "sst_footer io n bo bs =
     le64 (word_of_int io) @ le32 (of_nat n) @ le64 (word_of_int bo) @ le32 (of_nat bs) @ le32 sstMagic"

lemma sint_of_nat_u64: "int n < 2 ^ 63 \<Longrightarrow> sint (of_nat n :: u64) = int n"
  using sint_of_int_u64 [of "int n"] by simp

lemma OpenSSTable_layout:
  assumes f: "f = D @ I @ B @ sst_footer (int (length D)) n (int (length D) + int (length I)) (length B)"
    and small: "int (length D) + int (length I) < 2 ^ 63" "n < 2 ^ 32" "length B < 2 ^ 32"
    and idx: "parse_index I 0 n = Some idx"
  shows "OpenSSTable fsize f = Inr \<lparr>sfile = f, index = idx, bloom = DeserializeBloom fsize B\<rparr>"
proof -
  let ?io = "int (length D)" and ?bo = "int (length D) + int (length I)"
  let ?F = "sst_footer ?io n ?bo (length B)"
  have lF: "length ?F = 28" by (simp add: sst_footer_def)
  have c0: "\<not> length f < footerSize" by (simp add: f lF footerSize_def)
  have r0: "ReadAt f (int (length f) - int footerSize) footerSize = Some ?F"
    by (rule ReadAt_at [where a = "D @ I @ B" and c = "[]"]) (simp_all add: f lF footerSize_def)
  have m: "rd32 (drop 24 ?F) = sstMagic" by (simp add: sst_footer_def rd32_le32)
  have a: "sint (rd64 (take 8 ?F)) = ?io"
    using small(1) by (simp add: sst_footer_def rd64_le64 sint_of_nat_u64)
  have b: "unat (rd32 (take 4 (drop 8 ?F))) = n"
    using small(2) by (simp add: sst_footer_def rd32_le32 unat_of_nat_u32)
  have "sint (word_of_int ?bo :: u64) = ?bo" using small(1) by (intro sint_of_int_u64) simp_all
  then have c: "sint (rd64 (take 8 (drop 12 ?F))) = ?bo"
    by (simp add: sst_footer_def rd64_le64)
  have d: "unat (rd32 (take 4 (drop 20 ?F))) = length B"
    using small(3) by (simp add: sst_footer_def rd32_le32 unat_of_nat_u32)
  have r1: "ReadAt f ?bo (length B) = Some B"
    by (rule ReadAt_at [where a = "D @ I" and c = ?F]) (simp_all add: f)
  have n0: "\<not> ?bo - ?io < 0" by simp
  have r2: "ReadAt f ?io (nat (?bo - ?io)) = Some I"
    by (rule ReadAt_at [where a = D and c = "B @ ?F"]) (simp_all add: f)
  show ?thesis
    unfolding OpenSSTable_def
    by (simp only: c0 if_False r0 option.case m Let_def a b c d r1 n0 r2 idx refl) simp
qed

lemma WriteSSTable_layout:
  assumes "Add_all (NewBloomFilter fsize (int (length es)) (1 / 100)) (map EKey es) = Some bf"
  shows "WriteSSTable fsize es =
           Inr (concat (map data_entry es) @ concat (map index_entry (index_of es 0))
                 @ Serialize bf
                 @ sst_footer (int (length (concat (map data_entry es)))) (length es)
                     (int (length (concat (map data_entry es)))
                        + int (length (concat (map index_entry (index_of es 0)))))
                     (length (Serialize bf)))"
  by (simp add: WriteSSTable_def assms write_data_eq sst_footer_def Let_def)

text \<open>The bytes that the data and the index of a table take.\<close>

definition sst_bytes :: "SSTableEntry list \<Rightarrow> nat" where
  "sst_bytes es = (\<Sum>e\<leftarrow>es. 21 + 2 * length (EKey e) + length (EValue e))"

lemma sst_bytes_eq:
  "length (concat (map data_entry es)) + length (concat (map index_entry (index_of es off)))
     = sst_bytes es"
  by (induction es arbitrary: off)
     (simp_all add: sst_bytes_def length_data_entry length_index_entry)

lemma length_data_le: "length (concat (map data_entry es)) \<le> sst_bytes es"
  using sst_bytes_eq [of es 0] by linarith

text \<open>
  A table within the limits of the format: key and value lengths fit uint32, the number
  of entries fits uint32, the offsets fit \<^verbatim>\<open>int64\<close>, and the bit array of the filter
  covers its \<open>numBits\<close> bits.
\<close>

definition sst_fits :: "sizing \<Rightarrow> SSTableEntry list \<Rightarrow> bool" where
  "sst_fits fsize es \<longleftrightarrow>
     (\<forall>e\<in>set es. length (EKey e) < 2 ^ 32 \<and> length (EValue e) < 2 ^ 32) \<and>
     length es < 2 ^ 32 \<and> sst_bytes es < 2 ^ 63 \<and>
     unat (numBits (NewBloomFilter fsize (int (length es)) (1 / 100))) + 7 < 2 ^ 32"

lemma written_opens:
  assumes fits: "sst_fits fsize es"
  shows "\<exists>f bf. WriteSSTable fsize es = Inr f \<and>
           f = concat (map data_entry es) @ drop (length (concat (map data_entry es))) f \<and>
           Add_all (NewBloomFilter fsize (int (length es)) (1 / 100)) (map EKey es) = Some bf \<and>
           OpenSSTable fsize f = Inr \<lparr>sfile = f, index = index_of es 0, bloom = bf\<rparr>"
proof -
  let ?new = "NewBloomFilter fsize (int (length es)) (1 / 100)"
  let ?D = "concat (map data_entry es)" and ?I = "concat (map index_entry (index_of es 0))"
  have wf: "bloom_wf ?new" using fits by (intro NewBloomFilter_wf) (simp add: sst_fits_def)
  obtain bf where bf: "Add_all ?new (map EKey es) = Some bf"
    using Add_all_total [OF wf] by blast
  let ?B = "Serialize bf"
  let ?f = "?D @ ?I @ ?B @ sst_footer (int (length ?D)) (length es)
              (int (length ?D) + int (length ?I)) (length ?B)"
  have w: "WriteSSTable fsize es = Inr ?f" using bf by (rule WriteSSTable_layout)
  have lB: "length ?B < 2 ^ 32"
    using Add_all_fields [OF bf] length_bits_New [of fsize "int (length es)" "1 / 100"]
    by (simp add: Serialize_def)
  have sz: "int (length ?D) + int (length ?I) < 2 ^ 63"
    using sst_bytes_eq [of es 0] fits by (simp add: sst_fits_def)
  have ifit: "\<forall>i\<in>set (index_of es 0). index_fits i"
  proof
    fix i assume i: "i \<in> set (index_of es 0)"
    have b: "0 \<le> Offset i" "Offset i \<le> int (length ?D)" "IKey i \<in> EKey ` set es"
      using index_of_bounds [OF i] by simp_all
    have "int (length ?D) < 2 ^ 63" using sz by linarith
    then have "Offset i < 2 ^ 63" using b(2) by linarith
    moreover have "length (IKey i) < 2 ^ 32" using b(3) fits by (auto simp: sst_fits_def)
    ultimately show "index_fits i" using b(1) by (simp add: index_fits_def)
  qed
  have "parse_index ([] @ ?I @ []) (length ([] :: byte list)) (length (index_of es 0))
          = Some (index_of es 0)"
    using ifit by (rule parse_index_written)
  then have p: "parse_index ?I 0 (length es) = Some (index_of es 0)" by simp
  have n: "length es < 2 ^ 32" using fits by (simp add: sst_fits_def)
  have "OpenSSTable fsize ?f = Inr \<lparr>sfile = ?f, index = index_of es 0, bloom = DeserializeBloom fsize ?B\<rparr>"
    using refl sz n lB p by (rule OpenSSTable_layout)
  then have o: "OpenSSTable fsize ?f = Inr \<lparr>sfile = ?f, index = index_of es 0, bloom = bf\<rparr>"
    by (simp add: Deserialize_Serialize)
  have "?f = ?D @ drop (length ?D) ?f" by simp
  then show ?thesis using w bf o by blast
qed

text \<open>
  The round trip, for tables within the limits of the format whose values are shorter
  than \<open>2\<^sup>3\<^sup>2 - 1\<close> bytes: the file that \<^verbatim>\<open>WriteSSTable\<close> writes opens, and
  \<^verbatim>\<open>ReadAll\<close> returns the entries written, in their order (the entries need not even be
  sorted).
\<close>

lemma sstable_round_trip:
  assumes "sst_fits fsize es" "\<forall>e\<in>set es. length (EValue e) + 1 < 2 ^ 32"
  shows "\<exists>f r. WriteSSTable fsize es = Inr f \<and> OpenSSTable fsize f = Inr r \<and> ReadAll r = Inr es"
proof -
  obtain f bf where w: "WriteSSTable fsize es = Inr f"
    and d: "f = concat (map data_entry es) @ drop (length (concat (map data_entry es))) f"
    and o: "OpenSSTable fsize f = Inr \<lparr>sfile = f, index = index_of es 0, bloom = bf\<rparr>"
    using written_opens [OF assms(1)] by blast
  have ef: "\<forall>e\<in>set es. entry_fits e" using assms by (simp add: sst_fits_def entry_fits_def)
  have "ReadAll_loop ([] @ concat (map data_entry es) @ drop (length (concat (map data_entry es))) f)
          (index_of es (int (length ([] :: byte list)))) = Inr es"
    using ef by (rule ReadAll_loop_written)
  then have "ReadAll_loop f (index_of es 0) = Inr es" using d by simp
  then have "ReadAll \<lparr>sfile = f, index = index_of es 0, bloom = bf\<rparr> = Inr es"
    by (simp add: ReadAll_def)
  then show ?thesis using w o by blast
qed

subsection \<open>A value of the greatest length\<close>

text \<open>
  The data model lets the length of a value be any unsigned 32-bit number. Take the
  greatest one: a value of \<open>2\<^sup>3\<^sup>2 - 1\<close> bytes, here all zero, under the key "k".
\<close>

definition big_value :: "byte list" where
  "big_value = replicate 4294967295 0"

definition big_entry :: SSTableEntry where
  "big_entry = \<lparr>EKey = [0x6b], EValue = big_value, Tombstone = False\<rparr>"

lemma length_big_value: "length big_value = 4294967295"
  by (simp only: big_value_def length_replicate)

lemma numBits_sizing_p01_1: "numBits (NewBloomFilter sizing_p01 1 (1 / 100)) = 10"
  by (simp add: NewBloomFilter_def sizing_p01_def)

lemma big_entry_fits: "sst_fits sizing_p01 [big_entry]"
  by (simp add: sst_fits_def big_entry_def length_big_value sst_bytes_def numBits_sizing_p01_1)

lemma big_entry_written:
  "\<exists>f bf. WriteSSTable sizing_p01 [big_entry] = Inr f \<and>
     OpenSSTable sizing_p01 f = Inr \<lparr>sfile = f, index = [\<lparr>IKey = [0x6b], Offset = 0\<rparr>], bloom = bf\<rparr> \<and>
     MayContain bf [0x6b] = Some True \<and>
     readEntry f 0 = Inl Panic"
proof -
  obtain f bf where w: "WriteSSTable sizing_p01 [big_entry] = Inr f"
    and d: "f = concat (map data_entry [big_entry]) @ drop (length (concat (map data_entry [big_entry]))) f"
    and a: "Add_all (NewBloomFilter sizing_p01 (int (length [big_entry])) (1 / 100)) (map EKey [big_entry]) = Some bf"
    and o: "OpenSSTable sizing_p01 f = Inr \<lparr>sfile = f, index = index_of [big_entry] 0, bloom = bf\<rparr>"
    using written_opens [OF big_entry_fits] by blast
  have i: "index_of [big_entry] 0 = [\<lparr>IKey = [0x6b], Offset = 0\<rparr>]" by (simp add: big_entry_def)
  have m: "MayContain bf [0x6b] = Some True"
    using Add_all_MayContain [OF a, of "[0x6b]"] by (simp add: big_entry_def)
  have k: "length (EKey big_entry) < 2 ^ 32" and v: "length (EValue big_entry) < 2 ^ 32"
    by (simp_all add: big_entry_def length_big_value)
  obtain post where f: "f = [] @ data_entry big_entry @ post" using d by simp
  have "readEntry ([] @ data_entry big_entry @ post) (int (length ([] :: byte list))) = Inl Panic"
    using readEntry_data_entry [OF k v, of "[]" post]
    by (simp add: big_entry_def length_big_value)
  then have r: "readEntry f 0 = Inl Panic" using f by simp
  show ?thesis using w o i m r by auto
qed

text \<open>
  Claim C4 fails on the code for this entry, by a slip in \<^verbatim>\<open>readEntry\<close>. The one-entry
  list is sorted and key-unique; \<^verbatim>\<open>WriteSSTable\<close> writes it and \<^verbatim>\<open>OpenSSTable\<close> opens
  the file. \<^verbatim>\<open>readEntry\<close> then reads the value length \<open>0xFFFFFFFF\<close>, allocates
  \<^verbatim>\<open>make([]byte, valLen+1)\<close> with \<^verbatim>\<open>valLen+1\<close> wrapped to 0 in uint32, reads no
  byte, and the slice \<^verbatim>\<open>data[:valLen]\<close> panics: \<^verbatim>\<open>ReadAll\<close> crashes instead of
  returning the entry.
\<close>

theorem round_trip_max_value_panics:
  "keys_sorted [big_entry] \<and> length (EValue big_entry) = 4294967295 \<and>
   (\<exists>f r. WriteSSTable sizing_p01 [big_entry] = Inr f \<and> OpenSSTable sizing_p01 f = Inr r \<and>
      ReadAll r = Inl Panic)"
proof -
  obtain f bf where w: "WriteSSTable sizing_p01 [big_entry] = Inr f"
    and o: "OpenSSTable sizing_p01 f = Inr \<lparr>sfile = f, index = [\<lparr>IKey = [0x6b], Offset = 0\<rparr>], bloom = bf\<rparr>"
    and r: "readEntry f 0 = Inl Panic"
    using big_entry_written by blast
  have "ReadAll \<lparr>sfile = f, index = [\<lparr>IKey = [0x6b], Offset = 0\<rparr>], bloom = bf\<rparr> = Inl Panic"
    by (simp add: ReadAll_def r)
  then have "\<exists>f r. WriteSSTable sizing_p01 [big_entry] = Inr f \<and> OpenSSTable sizing_p01 f = Inr r \<and>
      ReadAll r = Inl Panic"
    using w o by blast
  moreover have "keys_sorted [big_entry]" by (simp add: keys_sorted_def)
  moreover have "length (EValue big_entry) = 4294967295" by (simp add: big_entry_def length_big_value)
  ultimately show ?thesis by blast
qed

text \<open>The engine after the put of the big value has returned: one table, an empty log and
  an empty memtable.\<close>

definition big_put_db :: "byte list \<Rightarrow> SSTableReader \<Rightarrow> DB" where
  "big_put_db f r =
     \<lparr>dir = \<lparr>sst_files = [((0, 1), f)], wal_file = Some []\<rparr>,
      mem = NewMemtable DefaultMemtableSize, sstables = [r], nextSeq = 2\<rparr>"

lemma Put_big:
  assumes w: "WriteSSTable fsize [big_entry] = Inr f" and o: "OpenSSTable fsize f = Inr r"
  shows "Put fsize fresh_db [0x6b] (Some big_value) = Inr (big_put_db f r)"
proof -
  let ?e = "\<lparr>Op = OpPut, Key = [0x6b], Value = big_value\<rparr>"
  let ?m = "\<lparr>entries = [\<lparr>key = [0x6b], mvalue = Some big_value, tombstone = False\<rparr>],
             msize = 4294967297, threshold = DefaultMemtableSize\<rparr>"
  let ?db2 = "\<lparr>dir = \<lparr>sst_files = [], wal_file = Some (Append [] ?e)\<rparr>, mem = ?m,
               sstables = [], nextSeq = 1\<rparr>"
  have m: "Memtable_Put (NewMemtable DefaultMemtableSize) [0x6b] (Some big_value) = ?m"
    by (simp add: Memtable_Put_def NewMemtable_def search_def Search_0 insert_at_def blen_def
        length_big_value)
  have full: "IsFull ?m" by (simp add: IsFull_def DefaultMemtableSize_def)
  have p: "Put fsize fresh_db [0x6b] (Some big_value) = flush fsize ?db2"
    unfolding Put_def Let_def
    by (simp add: fresh_db_def wal_append_def wal_bytes_def bytes_of_def m full)
  have es: "map (\<lambda>e. \<lparr>EKey = key e, EValue = bytes_of (mvalue e), Tombstone = tombstone e\<rparr>)
              (entries (mem ?db2)) = [big_entry]"
    by (simp add: big_entry_def bytes_of_def)
  have "flush fsize ?db2 = maybeCompact fsize (big_put_db f r)"
    unfolding flush_def Let_def es
    by (simp add: w o big_put_db_def create_sst_def)
  moreover have "maybeCompact fsize (big_put_db f r) = Inr (big_put_db f r)"
    by (simp add: maybeCompact_def level0SSTables_def big_put_db_def CompactionThreshold_def)
  ultimately show ?thesis using p by simp
qed

lemma Open_big:
  assumes o: "OpenSSTable fsize f = Inr r"
  shows "Open fsize (dir (big_put_db f r)) = Inr (big_put_db f r)"
  by (simp add: Open_def loadSSTables_def big_put_db_def newest_first_def o Replay_def
      Replay_loop_short wal_bytes_def)

lemma Get_big:
  assumes "MayContain bf [0x6b] = Some True" "readEntry f 0 = Inl Panic"
  shows "Get (big_put_db f \<lparr>sfile = f, index = [\<lparr>IKey = [0x6b], Offset = 0\<rparr>], bloom = bf\<rparr>) [0x6b]
           = Inl Panic"
  by (simp add: Get_def big_put_db_def Memtable_Get_def NewMemtable_def search_def Search_0
      SSTable_Get_def assms Search_1)

text \<open>
  Claim C2 fails on the code by the same slip. On a fresh engine
  \<^verbatim>\<open>db.Put("k", value)\<close> with that value returns success: the record goes to the log,
  the memtable is full at once and is flushed to the table \<^verbatim>\<open>0-000001.sst\<close>, and the
  log is reset. The process ends. The engine reopened on the directory loads the table,
  and \<^verbatim>\<open>db.Get("k")\<close> finds the key in the filter and in the index and panics in
  \<^verbatim>\<open>readEntry\<close>, where the claim has it return the acknowledged value.
\<close>

theorem get_after_crash_max_value_panics:
  "(\<exists>db db'. Open sizing_p01 empty_dir = Inr fresh_db \<and>
      run sizing_p01 fresh_db [PutOp [0x6b] (Some big_value)] = Inr db \<and>
      Open sizing_p01 (dir db) = Inr db' \<and> Get db' [0x6b] = Inl Panic) \<and>
   get_after_crash sizing_p01 [PutOp [0x6b] (Some big_value)] [0x6b] = Inl Panic"
proof -
  obtain f bf where w: "WriteSSTable sizing_p01 [big_entry] = Inr f"
    and o: "OpenSSTable sizing_p01 f = Inr \<lparr>sfile = f, index = [\<lparr>IKey = [0x6b], Offset = 0\<rparr>], bloom = bf\<rparr>"
    and m: "MayContain bf [0x6b] = Some True"
    and r: "readEntry f 0 = Inl Panic"
    using big_entry_written by blast
  let ?r = "\<lparr>sfile = f, index = [\<lparr>IKey = [0x6b], Offset = 0\<rparr>], bloom = bf\<rparr>"
  let ?db = "big_put_db f ?r"
  have p: "run sizing_p01 fresh_db [PutOp [0x6b] (Some big_value)] = Inr ?db"
    by (simp add: Put_big [OF w o])
  have op: "Open sizing_p01 (dir ?db) = Inr ?db" using o by (rule Open_big)
  have g: "Get ?db [0x6b] = Inl Panic" using m r by (rule Get_big)
  have a: "\<exists>db db'. Open sizing_p01 empty_dir = Inr fresh_db \<and>
      run sizing_p01 fresh_db [PutOp [0x6b] (Some big_value)] = Inr db \<and>
      Open sizing_p01 (dir db) = Inr db' \<and> Get db' [0x6b] = Inl Panic"
    using Open_empty_dir p op g by blast
  have b: "get_after_crash sizing_p01 [PutOp [0x6b] (Some big_value)] [0x6b] = Inl Panic"
    unfolding get_after_crash_def by (simp only: Open_empty_dir p op g sum.case)
  show ?thesis using a b by blast
qed

end
